theory Spec2Isabelle
  imports Complex_Main
begin

section \<open>Constants and basic data\<close>

text \<open>
  Module constants of \<^verbatim>\<open>Batch-Cropper.py\<close>.
\<close>

definition MIN_CROP_SIZE :: int where
  "MIN_CROP_SIZE = 4"

definition MAX_HISTORY :: nat where
  "MAX_HISTORY = 10"

text \<open>
  \<^verbatim>\<open>wx.Rect(x, y, width, height)\<close> and \<^verbatim>\<open>wx.Point(x, y)\<close> hold integers.
  The properties \<^verbatim>\<open>Right\<close> and \<^verbatim>\<open>Bottom\<close> of a \<^verbatim>\<open>wx.Rect\<close> are the
  inclusive far edges \<open>x + width - 1\<close> and \<open>y + height - 1\<close>. A \<^verbatim>\<open>wx.Rect\<close> is
  falsy exactly when it equals \<^verbatim>\<open>wx.Rect(0, 0, 0, 0)\<close>.
\<close>

datatype rect = Rect (rect_x: int) (rect_y: int) (rect_width: int) (rect_height: int)

datatype point = Point (point_x: int) (point_y: int)

definition rect_Right :: "rect \<Rightarrow> int" where
  "rect_Right r = rect_x r + rect_width r - 1"

definition rect_Bottom :: "rect \<Rightarrow> int" where
  "rect_Bottom r = rect_y r + rect_height r - 1"

definition rect_truthy :: "rect option \<Rightarrow> bool" where
  "rect_truthy ro = (case ro of None \<Rightarrow> False | Some r \<Rightarrow> r \<noteq> Rect 0 0 0 0)"

definition rect_tuple :: "rect \<Rightarrow> int \<times> int \<times> int \<times> int" where
  "rect_tuple r = (rect_x r, rect_y r, rect_width r, rect_height r)"

text \<open>
  The eight handle names of the source, and \<^verbatim>\<open>"inside"\<close>, which
  \<^verbatim>\<open>OnLeftDown\<close> stores in \<^verbatim>\<open>drag_handle\<close> while moving.
\<close>

datatype handle =
  h_top_left | h_top | h_top_right | h_right | h_bottom_right | h_bottom | h_bottom_left
  | h_left | h_inside

text \<open>
  In the selection geometry Python floats are idealised as exact rationals. \<^verbatim>\<open>round\<close> on
  a float rounds half to even and returns an integer.
\<close>

definition py_round :: "rat \<Rightarrow> int" where
  "py_round q =
     (let f = \<lfloor>q\<rfloor>; d = q - of_int f
      in if d < 1 / 2 then f
         else if 1 / 2 < d then f + 1
         else if even f then f else f + 1)"

section \<open>The preview panel: selection geometry\<close>

text \<open>
  The fields of \<^verbatim>\<open>PreviewPanel\<close> that the geometry reads and writes.
  \<open>current_image\<close> keeps the size \<open>(iw, ih)\<close> of the loaded image only.
  \<open>crop_aspect\<close> holds the parts of the aspect text split at \<^verbatim>\<open>':'\<close>, each already
  passed through \<^verbatim>\<open>float\<close>: \<open>None\<close> where \<^verbatim>\<open>float\<close> raises \<^verbatim>\<open>ValueError\<close>.
\<close>

record preview =
  current_image :: "(int \<times> int) option"
  display_w :: int
  display_h :: int
  old_display_w :: int
  old_display_h :: int
  crop_rect :: "(int \<times> int \<times> int \<times> int) option"
  drag_handle :: "handle option"
  original_rect :: "rect option"
  fixed_aspect :: bool
  crop_aspect :: "rat option list"

definition clamp_display_point :: "preview \<Rightarrow> point \<Rightarrow> point" where
  "clamp_display_point self p =
     Point (max 0 (min (point_x p) (display_w self)))
           (max 0 (min (point_y p) (display_h self)))"

definition get_aspect_ratio :: "preview \<Rightarrow> rat option" where
  "get_aspect_ratio self =
     (if \<not> fixed_aspect self then None
      else case crop_aspect self of
             [Some wr, Some hr] \<Rightarrow> if hr = 0 then None else Some (wr / hr)
           | _ \<Rightarrow> None)"

definition ensure_within_display :: "preview \<Rightarrow> rect option \<Rightarrow> rect" where
  "ensure_within_display self ro =
     (case ro of
        None \<Rightarrow> Rect 0 0 0 0
      | Some r \<Rightarrow>
          if display_w self \<le> 0 \<or> display_h self \<le> 0 then Rect 0 0 0 0
          else
            let w1 = (if rect_width r > display_w self then display_w self else rect_width r);
                h1 = (if rect_height r > display_h self then display_h self else rect_height r);
                x1 = (if rect_x r < 0 then 0 else rect_x r);
                y1 = (if rect_y r < 0 then 0 else rect_y r);
                x2 = (if rect_Right (Rect x1 y1 w1 h1) > display_w self
                      then display_w self - w1 else x1);
                y2 = (if rect_Bottom (Rect x2 y1 w1 h1) > display_h self
                      then display_h self - h1 else y1);
                w2 = max MIN_CROP_SIZE w1;
                h2 = max MIN_CROP_SIZE h1;
                x3 = max 0 (min x2 (display_w self - w2));
                y3 = max 0 (min y2 (display_h self - h2))
            in Rect x3 y3 w2 h2)"

definition ensure_min_size :: "preview \<Rightarrow> rect option \<Rightarrow> rect" where
  "ensure_min_size self ro =
     (let r = ensure_within_display self ro;
          w = (if rect_width r < MIN_CROP_SIZE then MIN_CROP_SIZE else rect_width r);
          h = (if rect_height r < MIN_CROP_SIZE then MIN_CROP_SIZE else rect_height r)
      in ensure_within_display self (Some (Rect (rect_x r) (rect_y r) w h)))"

definition create_rect_with_ratio :: "preview \<Rightarrow> point \<Rightarrow> point \<Rightarrow> rat \<Rightarrow> rect" where
  "create_rect_with_ratio self anchor current ratio =
     (let dx = point_x current - point_x anchor;
          dy = point_y current - point_y anchor;
          abs_dx = \<bar>dx\<bar>;
          abs_dy = \<bar>dy\<bar>
      in if abs_dx = 0 \<and> abs_dy = 0 then Rect (point_x anchor) (point_y anchor) 0 0
         else
           let abs_dy1 = (if abs_dy = 0 then py_round (of_int abs_dx / ratio) else abs_dy);
               abs_dx1 = (if abs_dx = 0 then py_round (of_int abs_dy1 * ratio) else abs_dx);
               current_ratio =
                 (if abs_dy1 \<noteq> 0 then of_int abs_dx1 / of_int abs_dy1 else ratio);
               abs_dx2 = (if current_ratio > ratio then py_round (of_int abs_dy1 * ratio)
                          else abs_dx1);
               abs_dy2 = (if current_ratio > ratio then abs_dy1
                          else py_round (of_int abs_dx1 / ratio));
               x2 = point_x anchor + (if dx \<ge> 0 then abs_dx2 else - abs_dx2);
               y2 = point_y anchor + (if dy \<ge> 0 then abs_dy2 else - abs_dy2);
               left = min (point_x anchor) x2;
               top = min (point_y anchor) y2
           in ensure_within_display self
                (Some (Rect left top \<bar>x2 - point_x anchor\<bar> \<bar>y2 - point_y anchor\<bar>)))"

definition create_rect :: "preview \<Rightarrow> point \<Rightarrow> point \<Rightarrow> rect" where
  "create_rect self anchor0 current0 =
     (let anchor = clamp_display_point self anchor0;
          current = clamp_display_point self current0;
          rect =
            (case get_aspect_ratio self of
               Some ratio \<Rightarrow>
                 if ratio \<noteq> 0 then create_rect_with_ratio self anchor current ratio
                 else Rect (min (point_x anchor) (point_x current))
                           (min (point_y anchor) (point_y current))
                           \<bar>point_x current - point_x anchor\<bar>
                           \<bar>point_y current - point_y anchor\<bar>
             | None \<Rightarrow>
                 Rect (min (point_x anchor) (point_x current))
                      (min (point_y anchor) (point_y current))
                      \<bar>point_x current - point_x anchor\<bar>
                      \<bar>point_y current - point_y anchor\<bar>)
      in ensure_min_size self (Some rect))"

definition rect_from_crop :: "preview \<Rightarrow> rect option" where
  "rect_from_crop self =
     (case crop_rect self of
        None \<Rightarrow> None
      | Some (x, y, w, h) \<Rightarrow> Some (Rect x y w h))"

definition update_selection_creation :: "preview \<Rightarrow> point \<Rightarrow> point \<Rightarrow> preview" where
  "update_selection_creation self anchor current =
     self\<lparr>crop_rect := Some (rect_tuple (create_rect self anchor current))\<rparr>"

definition update_selection_move :: "preview \<Rightarrow> int \<Rightarrow> int \<Rightarrow> preview" where
  "update_selection_move self dx dy =
     (case original_rect self of
        None \<Rightarrow> self
      | Some orig \<Rightarrow>
          if \<not> rect_truthy (Some orig) then self
          else
            let rect = Rect (rect_x orig + dx) (rect_y orig + dy)
                            (rect_width orig) (rect_height orig)
            in self\<lparr>crop_rect := Some (rect_tuple (ensure_min_size self (Some rect)))\<rparr>)"

definition rect_from_horizontal_anchor ::
  "preview \<Rightarrow> int \<Rightarrow> int \<Rightarrow> rect \<Rightarrow> bool \<Rightarrow> rat \<Rightarrow> rect" where
  "rect_from_horizontal_anchor self anchor_x width0 origin to_left ratio =
     (let width1 = max MIN_CROP_SIZE (min width0 (display_w self));
          height1 = max MIN_CROP_SIZE (py_round (of_int width1 / ratio));
          height = (if height1 > display_h self then display_h self else height1);
          width = (if height1 > display_h self
                   then max MIN_CROP_SIZE (py_round (of_int height * ratio)) else width1);
          center_y = of_int (rect_y origin) + of_int (rect_height origin) / 2;
          top0 = py_round (center_y - of_int height / 2);
          top = max 0 (min top0 (display_h self - height));
          bottom = top + height;
          right = (if to_left then min anchor_x (display_w self)
                   else min (display_w self) (max 0 anchor_x + width));
          left = (if to_left then max 0 (right - width) else right - width)
      in Rect left top (right - left) (bottom - top))"

definition rect_from_vertical_anchor ::
  "preview \<Rightarrow> int \<Rightarrow> int \<Rightarrow> rect \<Rightarrow> bool \<Rightarrow> rat \<Rightarrow> rect" where
  "rect_from_vertical_anchor self anchor_y height0 origin to_top ratio =
     (let height1 = max MIN_CROP_SIZE (min height0 (display_h self));
          width1 = max MIN_CROP_SIZE (py_round (of_int height1 * ratio));
          width = (if width1 > display_w self then display_w self else width1);
          height = (if width1 > display_w self
                    then max MIN_CROP_SIZE (py_round (of_int width / ratio)) else height1);
          center_x = of_int (rect_x origin) + of_int (rect_width origin) / 2;
          left0 = py_round (center_x - of_int width / 2);
          left = max 0 (min left0 (display_w self - width));
          right = left + width;
          bottom = (if to_top then min anchor_y (display_h self)
                    else min (display_h self) (max 0 anchor_y + height));
          top = (if to_top then max 0 (bottom - height) else bottom - height)
      in Rect left top (right - left) (bottom - top))"

definition resize_corner_with_ratio ::
  "preview \<Rightarrow> point \<Rightarrow> handle \<Rightarrow> rect \<Rightarrow> rat \<Rightarrow> rect" where
  "resize_corner_with_ratio self p hdl origin ratio =
     (let (anchor, horizontal, vertical) =
            (if hdl = h_top_left
               then (Point (rect_Right origin) (rect_Bottom origin), - 1 :: int, - 1 :: int)
             else if hdl = h_top_right
               then (Point (rect_x origin) (rect_Bottom origin), 1, - 1)
             else if hdl = h_bottom_left
               then (Point (rect_Right origin) (rect_y origin), - 1, 1)
             else (Point (rect_x origin) (rect_y origin), 1, 1));
          dx0 = (point_x p - point_x anchor) * horizontal;
          dy0 = (point_y p - point_y anchor) * vertical;
          dx1 = max MIN_CROP_SIZE (min \<bar>dx0\<bar> (display_w self));
          dy1 = max MIN_CROP_SIZE (min \<bar>dy0\<bar> (display_h self));
          dy = (if dy1 = 0 then py_round (of_int dx1 / ratio) else dy1);
          dx = (if dx1 = 0 then py_round (of_int dy * ratio) else dx1);
          height0 = py_round (of_int dx / ratio);
          height1 = (if height0 > dy then dy else height0);
          width1 = (if height0 > dy then py_round (of_int height1 * ratio) else dx);
          height = max MIN_CROP_SIZE height1;
          width = max MIN_CROP_SIZE width1;
          left = (if horizontal < 0 then point_x anchor - width else point_x anchor);
          right = (if horizontal < 0 then point_x anchor else point_x anchor + width);
          top = (if vertical < 0 then point_y anchor - height else point_y anchor);
          bottom = (if vertical < 0 then point_y anchor else point_y anchor + height)
      in ensure_min_size self (Some (Rect left top (right - left) (bottom - top))))"

text \<open>
  \<^verbatim>\<open>_resize_with_ratio\<close> and \<^verbatim>\<open>_resize_free\<close> are only called by
  \<^verbatim>\<open>_update_selection_resize\<close>, after its test that \<^verbatim>\<open>original_rect\<close> is truthy;
  the model passes them that rectangle as \<open>origin\<close>. In \<^verbatim>\<open>_resize_free\<close> the tests
  \<^verbatim>\<open>"left" in handle\<close> and so on are substring tests on the handle's name.
\<close>

definition resize_with_ratio :: "preview \<Rightarrow> point \<Rightarrow> handle \<Rightarrow> rect \<Rightarrow> rat \<Rightarrow> rect" where
  "resize_with_ratio self p hdl origin ratio =
     (let rect =
            (if hdl = h_left then
               let anchor_x = rect_Right origin;
                   width = max MIN_CROP_SIZE (min (anchor_x - point_x p) anchor_x)
               in rect_from_horizontal_anchor self anchor_x width origin True ratio
             else if hdl = h_right then
               let anchor_x = rect_x origin;
                   width = max MIN_CROP_SIZE
                             (min (point_x p - anchor_x) (display_w self - anchor_x))
               in rect_from_horizontal_anchor self anchor_x width origin False ratio
             else if hdl = h_top then
               let anchor_y = rect_Bottom origin;
                   height = max MIN_CROP_SIZE (min (anchor_y - point_y p) anchor_y)
               in rect_from_vertical_anchor self anchor_y height origin True ratio
             else if hdl = h_bottom then
               let anchor_y = rect_y origin;
                   height = max MIN_CROP_SIZE
                              (min (point_y p - anchor_y) (display_h self - anchor_y))
               in rect_from_vertical_anchor self anchor_y height origin False ratio
             else resize_corner_with_ratio self p hdl origin ratio)
      in ensure_min_size self (Some rect))"

definition handle_has_left :: "handle \<Rightarrow> bool" where
  "handle_has_left hdl = (hdl = h_top_left \<or> hdl = h_bottom_left \<or> hdl = h_left)"

definition handle_has_right :: "handle \<Rightarrow> bool" where
  "handle_has_right hdl = (hdl = h_top_right \<or> hdl = h_bottom_right \<or> hdl = h_right)"

definition handle_has_top :: "handle \<Rightarrow> bool" where
  "handle_has_top hdl = (hdl = h_top_left \<or> hdl = h_top \<or> hdl = h_top_right)"

definition handle_has_bottom :: "handle \<Rightarrow> bool" where
  "handle_has_bottom hdl = (hdl = h_bottom_left \<or> hdl = h_bottom \<or> hdl = h_bottom_right)"

definition resize_free :: "preview \<Rightarrow> point \<Rightarrow> handle \<Rightarrow> rect \<Rightarrow> rect" where
  "resize_free self p hdl origin =
     (let left0 = rect_x origin;
          top0 = rect_y origin;
          right0 = rect_Right origin;
          bottom0 = rect_Bottom origin;
          left1 = (if handle_has_left hdl then min (point_x p) (right0 - MIN_CROP_SIZE)
                   else left0);
          right1 = (if handle_has_right hdl then max (point_x p) (left1 + MIN_CROP_SIZE)
                    else right0);
          top1 = (if handle_has_top hdl then min (point_y p) (bottom0 - MIN_CROP_SIZE)
                  else top0);
          bottom1 = (if handle_has_bottom hdl then max (point_y p) (top1 + MIN_CROP_SIZE)
                     else bottom0);
          left = max 0 (min left1 (display_w self));
          right = max 0 (min right1 (display_w self));
          top = max 0 (min top1 (display_h self));
          bottom = max 0 (min bottom1 (display_h self));
          width = max MIN_CROP_SIZE (right - left);
          height = max MIN_CROP_SIZE (bottom - top)
      in Rect left top width height)"

definition update_selection_resize :: "preview \<Rightarrow> point \<Rightarrow> preview" where
  "update_selection_resize self p =
     (case (original_rect self, drag_handle self) of
        (Some origin, Some hdl) \<Rightarrow>
          if \<not> rect_truthy (Some origin) then self
          else
            let rect =
                  (case get_aspect_ratio self of
                     Some ratio \<Rightarrow>
                       if ratio \<noteq> 0 then resize_with_ratio self p hdl origin ratio
                       else resize_free self p hdl origin
                   | None \<Rightarrow> resize_free self p hdl origin)
            in self\<lparr>crop_rect := Some (rect_tuple (ensure_min_size self (Some rect)))\<rparr>
      | _ \<Rightarrow> self)"


section \<open>Sequences of selection operations\<close>

text \<open>
  The three operations \<^verbatim>\<open>OnMouseMove\<close> runs while a drag is in progress. \<open>Grab\<close> stands
  for the writes of \<^verbatim>\<open>OnLeftDown\<close> and \<^verbatim>\<open>OnLeftUp\<close> to \<^verbatim>\<open>original_rect\<close> and
  \<^verbatim>\<open>drag_handle\<close>, with any values.
\<close>

datatype sel_op =
  Create point point
  | Move int int
  | Resize point
  | Grab "rect option" "handle option"

fun apply_op :: "preview \<Rightarrow> sel_op \<Rightarrow> preview" where
  "apply_op self (Create anchor current) = update_selection_creation self anchor current"
| "apply_op self (Move dx dy) = update_selection_move self dx dy"
| "apply_op self (Resize p) = update_selection_resize self p"
| "apply_op self (Grab ro ho) = self\<lparr>original_rect := ro, drag_handle := ho\<rparr>"

definition run_ops :: "preview \<Rightarrow> sel_op list \<Rightarrow> preview" where
  "run_ops self ops = foldl apply_op self ops"

text \<open>
  The rectangle invariant of the specification: both sides at least \<open>MIN_CROP_SIZE\<close>, and
  the rectangle inside \<open>[0, display_w] \<times> [0, display_h]\<close>.
\<close>

definition rect_ok :: "preview \<Rightarrow> int \<times> int \<times> int \<times> int \<Rightarrow> bool" where
  "rect_ok self t =
     (case t of (x, y, w, h) \<Rightarrow>
        MIN_CROP_SIZE \<le> w \<and> MIN_CROP_SIZE \<le> h \<and> 0 \<le> x \<and> 0 \<le> y \<and>
        x + w \<le> display_w self \<and> y + h \<le> display_h self)"

definition crop_ok :: "preview \<Rightarrow> bool" where
  "crop_ok self = (case crop_rect self of None \<Rightarrow> True | Some t \<Rightarrow> rect_ok self t)"

section \<open>Floats\<close>

text \<open>
  A finite Python float is an IEEE 754 binary64 number, that is a rational. The result of
  an arithmetic operation on floats is the exact result rounded to the nearest binary64
  number, ties to the even mantissa: the mantissa has 53 bits and the least exponent of
  the last bit is \<open>-1074\<close>. A result whose rounded magnitude reaches \<open>2 ^ 1024\<close> overflows.
  \<open>blen\<close> is \<^verbatim>\<open>int.bit_length\<close>, and \<open>floor_log2 a\<close> is the exponent \<open>L\<close> with
  \<open>2 ^ L \<le> a < 2 ^ (L + 1)\<close> of a positive rational.
\<close>

fun blen :: "nat \<Rightarrow> nat" where
  "blen n = (if n = 0 then 0 else Suc (blen (n div 2)))"

declare blen.simps [simp del]

definition floor_log2 :: "rat \<Rightarrow> int" where
  "floor_log2 a =
     (let (n, d) = quotient_of a;
          k = int (blen (nat n)) - int (blen (nat d))
      in if 2 powi k \<le> a then k else k - 1)"

definition round_double :: "rat \<Rightarrow> rat option" where
  "round_double q =
     (if q = 0 then Some 0
      else
        let a = \<bar>q\<bar>;
            e = max (floor_log2 a - 52) (- 1074);
            m = py_round (a / 2 powi e);
            v = of_int m * 2 powi e
        in if 2 powi 1024 \<le> v then None else Some (if 0 < q then v else - v))"

text \<open>
  The float operations of \<^verbatim>\<open>GetCropBox\<close>. The true division \<^verbatim>\<open>a / b\<close> of two
  integers is correctly rounded; it raises \<^verbatim>\<open>ZeroDivisionError\<close> for a zero divisor and
  \<^verbatim>\<open>OverflowError\<close> when the quotient is too large for a float. In \<^verbatim>\<open>i * s\<close> with an
  integer \<open>i\<close> and a float \<open>s\<close> the integer is converted to a float first, which raises
  \<^verbatim>\<open>OverflowError\<close> when it is too large, and the product is rounded; an infinite product
  makes \<^verbatim>\<open>math.floor\<close> and \<^verbatim>\<open>math.ceil\<close> raise \<^verbatim>\<open>OverflowError\<close>. So \<open>None\<close> is the
  \<^verbatim>\<open>OverflowError\<close> of the conversion or of the rounding to an integer that follows.
\<close>

datatype py_error = ZeroDivisionError | OverflowError

definition py_truediv :: "int \<Rightarrow> int \<Rightarrow> py_error + rat" where
  "py_truediv a b =
     (if b = 0 then Inl ZeroDivisionError
      else case round_double (of_int a / of_int b) of
             None \<Rightarrow> Inl OverflowError
           | Some v \<Rightarrow> Inr v)"

definition py_mul_int_float :: "int \<Rightarrow> rat \<Rightarrow> rat option" where
  "py_mul_int_float i s =
     (case round_double (of_int i) of
        None \<Rightarrow> None
      | Some f \<Rightarrow> round_double (f * s))"

section \<open>Display rectangle to source crop box\<close>

text \<open>
  \<^verbatim>\<open>GetCropBox\<close>: the two scales are float quotients, the corners are the floor and the
  ceiling of float products.
\<close>

definition GetCropBox :: "preview \<Rightarrow> py_error + (int \<times> int \<times> int \<times> int) option" where
  "GetCropBox self =
     (case crop_rect self of
        None \<Rightarrow> Inr None
      | Some (x, y, w, h) \<Rightarrow>
          (case current_image self of
             None \<Rightarrow> Inr None
           | Some (iw, ih) \<Rightarrow>
               (case py_truediv iw (display_w self) of
                  Inl err \<Rightarrow> Inl err
                | Inr scale_x \<Rightarrow>
                    (case py_truediv ih (display_h self) of
                       Inl err \<Rightarrow> Inl err
                     | Inr scale_y \<Rightarrow>
                         (case py_mul_int_float x scale_x of
                            None \<Rightarrow> Inl OverflowError
                          | Some fx1 \<Rightarrow>
                         (case py_mul_int_float y scale_y of
                            None \<Rightarrow> Inl OverflowError
                          | Some fy1 \<Rightarrow>
                         (case py_mul_int_float (x + w) scale_x of
                            None \<Rightarrow> Inl OverflowError
                          | Some fx2 \<Rightarrow>
                         (case py_mul_int_float (y + h) scale_y of
                            None \<Rightarrow> Inl OverflowError
                          | Some fy2 \<Rightarrow>
                              let orig_x1 = \<lfloor>fx1\<rfloor>;
                                  orig_y1 = \<lfloor>fy1\<rfloor>;
                                  orig_x2 = \<lceil>fx2\<rceil>;
                                  orig_y2 = \<lceil>fy2\<rceil>;
                                  x1 = max 0 (min (iw - 1) orig_x1);
                                  y1 = max 0 (min (ih - 1) orig_y1);
                                  x2 = max (x1 + 1) (min iw orig_x2);
                                  y2 = max (y1 + 1) (min ih orig_y2)
                              in Inr (Some (x1, y1, x2, y2))))))))))"

section \<open>Paths\<close>

text \<open>
  Paths are strings of single-byte characters. \<^verbatim>\<open>os.path.splitext\<close> is
  \<^verbatim>\<open>genericpath._splitext\<close> with the separators of the platform: \<^verbatim>\<open>'/'\<close> on POSIX,
  backslash with the alternative \<^verbatim>\<open>'/'\<close> on Windows. \<^verbatim>\<open>str.rfind\<close> returns the
  highest index of the character, or \<open>-1\<close>.
\<close>

datatype os_name = posix | nt

definition rfind :: "char \<Rightarrow> string \<Rightarrow> int" where
  "rfind c p =
     (if c \<in> set p
      then int (length p) - 1 - int (length (takeWhile (\<lambda>x. x \<noteq> c) (rev p)))
      else - 1)"

function skip_leading_dots :: "string \<Rightarrow> char \<Rightarrow> nat \<Rightarrow> nat \<Rightarrow> bool" where
  "skip_leading_dots p extsep filenameIndex dotIndex =
     (if filenameIndex < dotIndex
      then (if p ! filenameIndex \<noteq> extsep then True
            else skip_leading_dots p extsep (filenameIndex + 1) dotIndex)
      else False)"
  by pat_completeness auto
termination
  by (relation "measure (\<lambda>(p, e, i, d). d - i)") auto

declare skip_leading_dots.simps [simp del]

definition genericpath_splitext ::
  "string \<Rightarrow> char \<Rightarrow> char option \<Rightarrow> char \<Rightarrow> string \<times> string" where
  "genericpath_splitext p sep altsep extsep =
     (let sepIndex0 = rfind sep p;
          sepIndex = (case altsep of None \<Rightarrow> sepIndex0
                      | Some a \<Rightarrow> max sepIndex0 (rfind a p));
          dotIndex = rfind extsep p
      in if dotIndex > sepIndex \<and>
            skip_leading_dots p extsep (nat (sepIndex + 1)) (nat dotIndex)
         then (take (nat dotIndex) p, drop (nat dotIndex) p)
         else (p, []))"

definition splitext :: "os_name \<Rightarrow> string \<Rightarrow> string \<times> string" where
  "splitext os p =
     (case os of
        posix \<Rightarrow> genericpath_splitext p CHR ''/'' None CHR ''.''
      | nt \<Rightarrow> genericpath_splitext p (CHR 0x5C) (Some CHR ''/'') CHR ''.'')"

definition endswith :: "string \<Rightarrow> string \<Rightarrow> bool" where
  "endswith s suffix =
     (length suffix \<le> length s \<and> drop (length s - length suffix) s = suffix)"

definition add_bc_suffix :: "os_name \<Rightarrow> string \<Rightarrow> string" where
  "add_bc_suffix os path =
     (let (base, ext) = splitext os path;
          base1 = (if endswith base ''_bc'' then take (length base - 3) base else base)
      in base1 @ ''_bc'' @ ext)"

definition lower_char :: "char \<Rightarrow> char" where
  "lower_char c =
     (let n = (of_char c :: nat) in if 65 \<le> n \<and> n \<le> 90 then char_of (n + 32) else c)"

definition lower :: "string \<Rightarrow> string" where
  "lower s = map lower_char s"

section \<open>The main frame: documents and history\<close>

text \<open>
  A history snapshot is the dictionary with the keys \<^verbatim>\<open>"paths"\<close>, \<^verbatim>\<open>"images"\<close> and
  \<^verbatim>\<open>"flags"\<close>. Images are values of a type \<open>'img\<close>; \<^verbatim>\<open>img.copy()\<close> is the identity
  on values. The fields of \<^verbatim>\<open>MainFrame\<close> kept here are the session state; the calls of
  \<^verbatim>\<open>UpdateUI\<close>, message boxes, logging and the writes to the file system are left out.
\<close>

record 'img snapshot =
  snap_paths :: "string list"
  snap_images :: "'img list"
  snap_flags :: "bool list"

record 'img frame =
  file_paths :: "string list"
  images :: "'img list"
  history :: "'img snapshot list"
  reduced_flags :: "bool list"
  selected_index :: int

definition PushHistory :: "'img frame \<Rightarrow> 'img frame" where
  "PushHistory self =
     (let snapshot = \<lparr>snap_paths = file_paths self, snap_images = images self,
                      snap_flags = reduced_flags self\<rparr>;
          h = history self @ [snapshot]
      in self\<lparr>history := (if length h > MAX_HISTORY then tl h else h)\<rparr>)"

text \<open>
  The value a call returns is \<^verbatim>\<open>None\<close> or a boolean. \<^verbatim>\<open>OnRevertAll\<close> has a bare
  \<^verbatim>\<open>return\<close> on its first path and runs to its end on the second one: it returns
  \<^verbatim>\<open>None\<close> on both.
\<close>

datatype py_value = PyNone | PyBool bool

definition OnRevertAll :: "'img frame \<Rightarrow> 'img frame \<times> py_value" where
  "OnRevertAll self =
     (if length (history self) < 2 then (self, PyNone)
      else
        let h = butlast (history self);
            previous = last h;
            s1 = self\<lparr>history := h, file_paths := snap_paths previous,
                      images := snap_images previous,
                      reduced_flags := snap_flags previous\<rparr>;
            s2 = (if 0 \<le> selected_index s1 \<and> selected_index s1 < int (length (images s1))
                  then s1 else s1\<lparr>selected_index := 0\<rparr>)
        in (s2, PyNone))"

text \<open>
  \<^verbatim>\<open>AddFiles\<close>: \<open>opened i\<close> is what \<^verbatim>\<open>Image.open\<close> gives for the \<open>i\<close>-th path of
  the call, \<open>None\<close> when it raises.
\<close>

fun AddFiles_loop ::
  "os_name \<Rightarrow> (nat \<Rightarrow> 'img option) \<Rightarrow> (nat \<times> string) list \<Rightarrow> 'img frame \<Rightarrow> 'img frame" where
  "AddFiles_loop os opened [] self = self"
| "AddFiles_loop os opened ((i, p) # rest) self =
     (let ext = lower (snd (splitext os p))
      in if ext \<in> set [''.jpg'', ''.jpeg'', ''.png'', ''.bmp'', ''.tiff'', ''.tif'']
            \<and> p \<notin> set (file_paths self)
         then (case opened i of
                 None \<Rightarrow> AddFiles_loop os opened rest self
               | Some img \<Rightarrow>
                   AddFiles_loop os opened rest
                     (self\<lparr>file_paths := file_paths self @ [p],
                           images := images self @ [img],
                           reduced_flags := reduced_flags self @ [False]\<rparr>))
         else AddFiles_loop os opened rest self)"

definition AddFiles ::
  "os_name \<Rightarrow> (nat \<Rightarrow> 'img option) \<Rightarrow> string list \<Rightarrow> 'img frame \<Rightarrow> 'img frame" where
  "AddFiles os opened paths self =
     (let s1 = AddFiles_loop os opened (zip [0..<length paths] paths) self
      in if images s1 \<noteq> []
         then (PushHistory (s1\<lparr>history := []\<rparr>))\<lparr>selected_index := 0\<rparr>
         else s1)"

text \<open>
  \<^verbatim>\<open>GetValidatedBox\<close>: each field is the result of \<^verbatim>\<open>int\<close> on the text of the control,
  \<open>None\<close> when \<^verbatim>\<open>int\<close> raises \<^verbatim>\<open>ValueError\<close>.
\<close>

definition GetValidatedBox ::
  "int option \<times> int option \<times> int option \<times> int option \<Rightarrow> (int \<times> int \<times> int \<times> int) option" where
  "GetValidatedBox textcs =
     (case textcs of
        (Some xs, Some ys, Some xe, Some ye) \<Rightarrow>
          if xe \<le> xs \<or> ye \<le> ys then None else Some (xs, ys, xe, ye)
      | _ \<Rightarrow> None)"

fun index_of :: "'a list \<Rightarrow> 'a \<Rightarrow> nat option" where
  "index_of [] x = None"
| "index_of (y # ys) x = (if y = x then Some 0 else map_option Suc (index_of ys x))"

definition flag_of :: "'img frame \<Rightarrow> string \<Rightarrow> bool option" where
  "flag_of self path =
     (case index_of (file_paths self) path of
        None \<Rightarrow> None
      | Some i \<Rightarrow> if i < length (reduced_flags self) then Some (reduced_flags self ! i)
                  else None)"

text \<open>
  \<^verbatim>\<open>OnTrimAll\<close>: \<open>saved i\<close> is the image reloaded after cropping and saving the
  \<open>i\<close>-th document, \<open>None\<close> when a step of the \<^verbatim>\<open>try\<close> block up to the reload raises.
  The lookup of the flag comes after the two other appends, inside the same \<^verbatim>\<open>try\<close>.
\<close>

fun OnTrimAll_loop ::
  "os_name \<Rightarrow> 'img frame \<Rightarrow> (nat \<Rightarrow> 'img option) \<Rightarrow> (nat \<times> string \<times> 'img) list \<Rightarrow>
   string list \<times> 'img list \<times> bool list \<Rightarrow> string list \<times> 'img list \<times> bool list" where
  "OnTrimAll_loop os self saved [] acc = acc"
| "OnTrimAll_loop os self saved ((i, path, img) # rest) (new_paths, new_images, new_flags) =
     (case saved i of
        None \<Rightarrow> OnTrimAll_loop os self saved rest (new_paths, new_images, new_flags)
      | Some reopened \<Rightarrow>
          (case flag_of self path of
             None \<Rightarrow>
               OnTrimAll_loop os self saved rest
                 (new_paths @ [add_bc_suffix os path], new_images @ [reopened], new_flags)
           | Some b \<Rightarrow>
               OnTrimAll_loop os self saved rest
                 (new_paths @ [add_bc_suffix os path], new_images @ [reopened],
                  new_flags @ [b])))"

definition enumerate_docs :: "'img frame \<Rightarrow> (nat \<times> string \<times> 'img) list" where
  "enumerate_docs self =
     (let docs = zip (file_paths self) (images self) in zip [0..<length docs] docs)"

definition OnTrimAll ::
  "os_name \<Rightarrow> (nat \<Rightarrow> 'img option) \<Rightarrow>
   int option \<times> int option \<times> int option \<times> int option \<Rightarrow> 'img frame \<Rightarrow> 'img frame" where
  "OnTrimAll os saved textcs self =
     (case GetValidatedBox textcs of
        None \<Rightarrow> self
      | Some crop_box \<Rightarrow>
          (case OnTrimAll_loop os self saved (enumerate_docs self) ([], [], []) of
             (new_paths, new_images, new_flags) \<Rightarrow>
               if new_images \<noteq> [] then
                 let s1 = PushHistory (self\<lparr>file_paths := new_paths, images := new_images,
                                            reduced_flags := new_flags\<rparr>)
                 in if 0 \<le> selected_index s1 \<and> selected_index s1 < int (length (images s1))
                    then s1 else s1\<lparr>selected_index := 0\<rparr>
               else self))"

text \<open>
  \<^verbatim>\<open>OnPngReduce\<close>: \<open>reduced i\<close> is the image reloaded after quantising and saving the
  \<open>i\<close>-th document, \<open>None\<close> when the \<^verbatim>\<open>try\<close> block raises.
\<close>

fun OnPngReduce_loop ::
  "os_name \<Rightarrow> (nat \<Rightarrow> 'img option) \<Rightarrow> (nat \<times> string \<times> 'img) list \<Rightarrow>
   string list \<times> 'img list \<times> bool list \<Rightarrow> string list \<times> 'img list \<times> bool list" where
  "OnPngReduce_loop os reduced [] acc = acc"
| "OnPngReduce_loop os reduced ((i, path, img) # rest) (new_paths, new_images, new_flags) =
     (case reduced i of
        None \<Rightarrow> OnPngReduce_loop os reduced rest (new_paths, new_images, new_flags)
      | Some reopened \<Rightarrow>
          OnPngReduce_loop os reduced rest
            (new_paths @ [add_bc_suffix os path], new_images @ [reopened],
             new_flags @ [True]))"

definition OnPngReduce ::
  "os_name \<Rightarrow> (nat \<Rightarrow> 'img option) \<Rightarrow> 'img frame \<Rightarrow> 'img frame" where
  "OnPngReduce os reduced self =
     (if file_paths self = [] then self
      else
        let non_png = filter (\<lambda>p. lower (snd (splitext os p)) \<noteq> ''.png'') (file_paths self)
        in if non_png \<noteq> [] then self
           else
             (case OnPngReduce_loop os reduced (enumerate_docs self) ([], [], []) of
                (new_paths, new_images, new_flags) \<Rightarrow>
                  if new_paths = [] then self
                  else
                    let s1 = PushHistory (self\<lparr>file_paths := new_paths, images := new_images,
                                               reduced_flags := new_flags\<rparr>)
                    in if 0 \<le> selected_index s1 \<and>
                          selected_index s1 < int (length (images s1))
                       then s1 else s1\<lparr>selected_index := 0\<rparr>))"

text \<open>
  A sequence of snapshot pushes: before each push the documents of the session are replaced
  by the ones to be saved, as the batch operations do before they call \<^verbatim>\<open>PushHistory\<close>.
\<close>

definition load_docs :: "'img snapshot \<Rightarrow> 'img frame \<Rightarrow> 'img frame" where
  "load_docs sn self =
     self\<lparr>file_paths := snap_paths sn, images := snap_images sn,
          reduced_flags := snap_flags sn\<rparr>"

fun push_all :: "'img snapshot list \<Rightarrow> 'img frame \<Rightarrow> 'img frame" where
  "push_all [] self = self"
| "push_all (sn # sns) self = push_all sns (PushHistory (load_docs sn self))"

section \<open>Concrete previews and sessions\<close>

text \<open>
  States on which the properties below are evaluated: a preview of 800 by 600 pixels with
  a grabbed selection, one with a selection of zero area, one of 854 by 480 pixels showing
  an image of 1920 by 1080, one whose display is two pixels
  high (an image of 1000 by 3 pixels in a panel 800 pixels wide), one with the aspect lock
  at 16:9, and sessions over images that are natural numbers.
\<close>

definition example_preview :: preview where
  "example_preview =
     \<lparr>current_image = Some (1600, 1200), display_w = 800, display_h = 600,
      old_display_w = 800, old_display_h = 600, crop_rect = Some (700, 500, 100, 80),
      drag_handle = Some h_right, original_rect = Some (Rect 700 500 100 80),
      fixed_aspect = False, crop_aspect = [Some 16, Some 9]\<rparr>"

definition zero_area_preview :: preview where
  "zero_area_preview =
     \<lparr>current_image = Some (1600, 1200), display_w = 800, display_h = 600,
      old_display_w = 800, old_display_h = 600, crop_rect = Some (10, 20, 0, 0),
      drag_handle = None, original_rect = None,
      fixed_aspect = False, crop_aspect = [Some 16, Some 9]\<rparr>"

definition float_preview :: preview where
  "float_preview =
     \<lparr>current_image = Some (1920, 1080), display_w = 854, display_h = 480,
      old_display_w = 854, old_display_h = 480, crop_rect = Some (427, 10, 4, 20),
      drag_handle = None, original_rect = None,
      fixed_aspect = False, crop_aspect = [Some 16, Some 9]\<rparr>"

definition small_display :: preview where
  "small_display =
     \<lparr>current_image = Some (1000, 3), display_w = 800, display_h = 2,
      old_display_w = 800, old_display_h = 2, crop_rect = None, drag_handle = None,
      original_rect = None, fixed_aspect = False, crop_aspect = [Some 16, Some 9]\<rparr>"


definition example_snapshot :: "nat \<Rightarrow> nat snapshot" where
  "example_snapshot n =
     \<lparr>snap_paths = [''a.png''], snap_images = [n], snap_flags = [False]\<rparr>"

definition empty_frame :: "nat frame" where
  "empty_frame =
     \<lparr>file_paths = [], images = [], history = [], reduced_flags = [],
      selected_index = 0\<rparr>"

definition two_frame :: "nat frame" where
  "two_frame =
     \<lparr>file_paths = [''a.png''], images = [1],
      history = [example_snapshot 0, example_snapshot 1], reduced_flags = [False],
      selected_index = 0\<rparr>"

definition mixed_frame :: "nat frame" where
  "mixed_frame =
     \<lparr>file_paths = [''a.png'', ''b.jpg''], images = [0, 1],
      history = [\<lparr>snap_paths = [''a.png'', ''b.jpg''], snap_images = [0, 1],
                  snap_flags = [False, True]\<rparr>],
      reduced_flags = [False, True], selected_index = 0\<rparr>"

section \<open>Properties of the selection normaliser\<close>

text \<open>
  Auxiliary facts on \<^verbatim>\<open>_ensure_within_display\<close> and \<^verbatim>\<open>_ensure_min_size\<close>.
\<close>

lemma clamp_fit:
  fixes a d w :: int
  assumes "w \<le> d"
  shows "0 \<le> max 0 (min a (d - w))" and "max 0 (min a (d - w)) + w \<le> d"
  using assms by (simp_all add: max_def min_def)

lemma ewd_form:
  assumes "0 < display_w self" "0 < display_h self"
  shows "\<exists>x2 y2. ensure_within_display self (Some r) =
     Rect (max 0 (min x2 (display_w self -
                max MIN_CROP_SIZE (if display_w self < rect_width r then display_w self
                                   else rect_width r))))
          (max 0 (min y2 (display_h self -
                max MIN_CROP_SIZE (if display_h self < rect_height r then display_h self
                                   else rect_height r))))
          (max MIN_CROP_SIZE (if display_w self < rect_width r then display_w self
                              else rect_width r))
          (max MIN_CROP_SIZE (if display_h self < rect_height r then display_h self
                              else rect_height r))"
proof -
  have c: "\<not> (display_w self \<le> 0 \<or> display_h self \<le> 0)"
    using assms by simp
  show ?thesis
    unfolding ensure_within_display_def Let_def option.case if_not_P [OF c]
    by (intro exI) (rule refl)
qed

lemma ewd_width:
  assumes "0 < display_w self" "0 < display_h self"
  shows "rect_width (ensure_within_display self (Some r)) =
     max MIN_CROP_SIZE (if display_w self < rect_width r then display_w self else rect_width r)"
proof -
  from ewd_form [OF assms, of r] obtain x2 y2 where
    "ensure_within_display self (Some r) =
     Rect x2 y2
          (max MIN_CROP_SIZE (if display_w self < rect_width r then display_w self
                              else rect_width r))
          (max MIN_CROP_SIZE (if display_h self < rect_height r then display_h self
                              else rect_height r))"
    by blast
  then show ?thesis by (simp only: rect.sel)
qed

lemma ewd_height:
  assumes "0 < display_w self" "0 < display_h self"
  shows "rect_height (ensure_within_display self (Some r)) =
     max MIN_CROP_SIZE (if display_h self < rect_height r then display_h self else rect_height r)"
proof -
  from ewd_form [OF assms, of r] obtain x2 y2 where
    "ensure_within_display self (Some r) =
     Rect x2 y2
          (max MIN_CROP_SIZE (if display_w self < rect_width r then display_w self
                              else rect_width r))
          (max MIN_CROP_SIZE (if display_h self < rect_height r then display_h self
                              else rect_height r))"
    by blast
  then show ?thesis by (simp only: rect.sel)
qed

lemma ewd_ok:
  assumes "MIN_CROP_SIZE \<le> display_w self" "MIN_CROP_SIZE \<le> display_h self"
  shows "rect_ok self (rect_tuple (ensure_within_display self (Some r)))"
proof -
  have pos: "0 < display_w self" "0 < display_h self"
    using assms by (simp_all add: MIN_CROP_SIZE_def)
  define W where "W = max MIN_CROP_SIZE (if display_w self < rect_width r then display_w self
                              else rect_width r)"
  define H where "H = max MIN_CROP_SIZE (if display_h self < rect_height r then display_h self
                              else rect_height r)"
  from ewd_form [OF pos, of r] obtain x2 y2 where
    eq: "ensure_within_display self (Some r) =
     Rect (max 0 (min x2 (display_w self - W))) (max 0 (min y2 (display_h self - H))) W H"
    unfolding W_def H_def by blast
  have W: "MIN_CROP_SIZE \<le> W" "W \<le> display_w self"
    using assms by (simp_all add: W_def)
  have H: "MIN_CROP_SIZE \<le> H" "H \<le> display_h self"
    using assms by (simp_all add: H_def)
  show ?thesis
    unfolding eq rect_tuple_def rect_ok_def rect.sel prod.case
    using W H clamp_fit [OF W(2), of x2] clamp_fit [OF H(2), of y2] by blast
qed

lemma ems_ok:
  assumes "MIN_CROP_SIZE \<le> display_w self" "MIN_CROP_SIZE \<le> display_h self"
  shows "rect_ok self (rect_tuple (ensure_min_size self ro))"
  unfolding ensure_min_size_def Let_def by (rule ewd_ok [OF assms])

lemma ems_size:
  assumes pos: "0 < display_w self" "0 < display_h self"
    and w: "MIN_CROP_SIZE \<le> w" "w \<le> display_w self"
    and h: "MIN_CROP_SIZE \<le> h" "h \<le> display_h self"
  shows "rect_width (ensure_min_size self (Some (Rect x y w h))) = w"
    and "rect_height (ensure_min_size self (Some (Rect x y w h))) = h"
proof -
  have w1: "rect_width (ensure_within_display self (Some (Rect x y w h))) = w"
    using w by (simp add: ewd_width [OF pos])
  have h1: "rect_height (ensure_within_display self (Some (Rect x y w h))) = h"
    using h by (simp add: ewd_height [OF pos])
  show "rect_width (ensure_min_size self (Some (Rect x y w h))) = w"
    unfolding ensure_min_size_def Let_def w1 h1
    using w by (simp add: ewd_width [OF pos])
  show "rect_height (ensure_min_size self (Some (Rect x y w h))) = h"
    unfolding ensure_min_size_def Let_def w1 h1
    using h by (simp add: ewd_height [OF pos])
qed

lemma slide_1d:
  fixes a d w :: int
  assumes "MIN_CROP_SIZE \<le> w" "w \<le> d"
  shows "max 0 (min (if d < (if a < 0 then 0 else a) + w - 1 then d - w
                     else (if a < 0 then 0 else a)) (d - w)) =
         max 0 (min a (d - w))"
  using assms by (simp add: MIN_CROP_SIZE_def max_def min_def)

lemma clamp_idem:
  fixes a d w :: int
  assumes "w \<le> d"
  shows "max 0 (min (max 0 (min a (d - w))) (d - w)) = max 0 (min a (d - w))"
  using assms by (simp add: max_def min_def)

lemma ewd_slide:
  assumes pos: "0 < display_w self" "0 < display_h self"
    and w: "MIN_CROP_SIZE \<le> w" "w \<le> display_w self"
    and h: "MIN_CROP_SIZE \<le> h" "h \<le> display_h self"
  shows "ensure_within_display self (Some (Rect a b w h)) =
     Rect (max 0 (min a (display_w self - w))) (max 0 (min b (display_h self - h))) w h"
proof -
  have c: "\<not> (display_w self \<le> 0 \<or> display_h self \<le> 0)"
    using pos by simp
  have w1: "(if display_w self < w then display_w self else w) = w" using w by simp
  have h1: "(if display_h self < h then display_h self else h) = h" using h by simp
  have mw: "max MIN_CROP_SIZE w = w" using w by simp
  have mh: "max MIN_CROP_SIZE h = h" using h by simp
  show ?thesis
    unfolding ensure_within_display_def Let_def option.case if_not_P [OF c] rect.sel
      rect_Right_def rect_Bottom_def w1 h1 mw mh slide_1d [OF w] slide_1d [OF h]
    by (rule refl)
qed

lemma ems_slide:
  assumes pos: "0 < display_w self" "0 < display_h self"
    and w: "MIN_CROP_SIZE \<le> w" "w \<le> display_w self"
    and h: "MIN_CROP_SIZE \<le> h" "h \<le> display_h self"
  shows "ensure_min_size self (Some (Rect a b w h)) =
     Rect (max 0 (min a (display_w self - w))) (max 0 (min b (display_h self - h))) w h"
proof -
  have w1: "(if w < MIN_CROP_SIZE then MIN_CROP_SIZE else w) = w" using w by simp
  have h1: "(if h < MIN_CROP_SIZE then MIN_CROP_SIZE else h) = h" using h by simp
  show ?thesis
    unfolding ensure_min_size_def Let_def ewd_slide [OF pos w h] rect.sel w1 h1
      clamp_idem [OF w(2)] clamp_idem [OF h(2)]
    by (rule refl)
qed

section \<open>Moving the selection\<close>

text \<open>
  C7: for every original rectangle \<open>(x, y, w, h)\<close> that satisfies the invariant (both
  sides at least \<open>MIN_CROP_SIZE\<close>, inside the display) and every translation
  \<open>(dx, dy)\<close>, \<^verbatim>\<open>_update_selection_move\<close> stores a rectangle of exactly the width
  \<open>w\<close> and the height \<open>h\<close>: the translated corner is slid back into
  \<open>[0, display_w - w] \<times> [0, display_h - h]\<close>, the size is never changed, and the
  stored rectangle satisfies the invariant again.
\<close>

theorem move_preserves_size:
  assumes "original_rect self = Some (Rect x y w h)" and "rect_ok self (x, y, w, h)"
  shows "crop_rect (update_selection_move self dx dy) =
           Some (max 0 (min (x + dx) (display_w self - w)),
                 max 0 (min (y + dy) (display_h self - h)), w, h) \<and>
         rect_ok self (max 0 (min (x + dx) (display_w self - w)),
                       max 0 (min (y + dy) (display_h self - h)), w, h)"
proof -
  from assms(2) have w: "MIN_CROP_SIZE \<le> w" "w \<le> display_w self"
    and h: "MIN_CROP_SIZE \<le> h" "h \<le> display_h self"
    by (simp_all add: rect_ok_def)
  have pos: "0 < display_w self" "0 < display_h self"
    using w h by (simp_all add: MIN_CROP_SIZE_def)
  have t: "rect_truthy (Some (Rect x y w h))"
    using w by (simp add: rect_truthy_def MIN_CROP_SIZE_def)
  have e: "ensure_min_size self (Some (Rect (x + dx) (y + dy) w h)) =
     Rect (max 0 (min (x + dx) (display_w self - w)))
          (max 0 (min (y + dy) (display_h self - h))) w h"
    by (rule ems_slide [OF pos w h])
  have c: "crop_rect (update_selection_move self dx dy) =
           Some (max 0 (min (x + dx) (display_w self - w)),
                 max 0 (min (y + dy) (display_h self - h)), w, h)"
    unfolding update_selection_move_def assms(1) option.case Let_def rect.sel e rect_tuple_def
    using t by simp
  have r: "rect_ok self (max 0 (min (x + dx) (display_w self - w)),
                       max 0 (min (y + dy) (display_h self - h)), w, h)"
    unfolding rect_ok_def prod.case
    using w h clamp_fit [OF w(2), of "x + dx"] clamp_fit [OF h(2), of "y + dy"] by blast
  from c r show ?thesis by blast
qed

theorem move_preserves_size_witness:
  "original_rect example_preview = Some (Rect 700 500 100 80) \<and>
   rect_ok example_preview (700, 500, 100, 80) \<and>
   crop_rect (update_selection_move example_preview 50 50) = Some (700, 520, 100, 80) \<and>
   crop_rect (update_selection_move example_preview (- 900) (- 30)) = Some (0, 470, 100, 80)"
proof -
  have o: "original_rect example_preview = Some (Rect 700 500 100 80)"
    by (simp add: example_preview_def)
  have k: "rect_ok example_preview (700, 500, 100, 80)"
    by (simp add: example_preview_def rect_ok_def MIN_CROP_SIZE_def)
  have d: "display_w example_preview = 800" "display_h example_preview = 600"
    by (simp_all add: example_preview_def)
  from move_preserves_size [OF o k, of 50 50]
  have m1: "crop_rect (update_selection_move example_preview 50 50) = Some (700, 520, 100, 80)"
    unfolding d by simp
  from move_preserves_size [OF o k, of "- 900" "- 30"]
  have m2: "crop_rect (update_selection_move example_preview (- 900) (- 30)) =
            Some (0, 470, 100, 80)"
    unfolding d by simp
  from o k m1 m2 show ?thesis by blast
qed

section \<open>The invariant of the selection rectangle\<close>

lemma crop_ok_set:
  "rect_ok self t \<Longrightarrow> crop_ok (self\<lparr>crop_rect := Some t\<rparr>)"
  by (simp add: crop_ok_def rect_ok_def)

lemma crop_ok_grab:
  "crop_ok (self\<lparr>original_rect := ro, drag_handle := ho\<rparr>) = crop_ok self"
  by (simp add: crop_ok_def rect_ok_def split: option.splits)

lemma apply_op_display:
  "display_w (apply_op self op) = display_w self \<and>
   display_h (apply_op self op) = display_h self"
proof (cases op)
  case (Create a b)
  then show ?thesis by (simp add: update_selection_creation_def)
next
  case (Move dx dy)
  then show ?thesis
    by (simp add: update_selection_move_def Let_def split: option.splits)
next
  case (Resize p)
  then show ?thesis
    by (simp add: update_selection_resize_def Let_def split: option.splits)
next
  case (Grab ro ho)
  then show ?thesis by simp
qed

lemma apply_op_ok:
  assumes d: "MIN_CROP_SIZE \<le> display_w self" "MIN_CROP_SIZE \<le> display_h self"
    and ok: "crop_ok self"
  shows "crop_ok (apply_op self op)"
proof (cases op)
  case (Create a b)
  show ?thesis
    unfolding Create apply_op.simps update_selection_creation_def create_rect_def Let_def
    by (rule crop_ok_set [OF ems_ok [OF d]])
next
  case (Move dx dy)
  show ?thesis
  proof (cases "original_rect self")
    case None
    then show ?thesis using ok by (simp add: Move update_selection_move_def)
  next
    case (Some orig)
    show ?thesis
    proof (cases "rect_truthy (Some orig)")
      case False
      then show ?thesis using ok Some by (simp add: Move update_selection_move_def)
    next
      case True
      have "update_selection_move self dx dy =
        self\<lparr>crop_rect := Some (rect_tuple (ensure_min_size self
          (Some (Rect (rect_x orig + dx) (rect_y orig + dy) (rect_width orig)
             (rect_height orig)))))\<rparr>"
        using True Some by (simp add: update_selection_move_def Let_def)
      then show ?thesis
        unfolding Move apply_op.simps by (simp only: crop_ok_set [OF ems_ok [OF d]])
    qed
  qed
next
  case (Resize p)
  show ?thesis
  proof (cases "\<exists>origin hdl. original_rect self = Some origin \<and> drag_handle self = Some hdl
       \<and> rect_truthy (Some origin)")
    case False
    then have "update_selection_resize self p = self"
      by (auto simp add: update_selection_resize_def split: option.splits)
    then show ?thesis using ok by (simp add: Resize)
  next
    case True
    then obtain origin hdl where o: "original_rect self = Some origin"
      "drag_handle self = Some hdl" "rect_truthy (Some origin)" by blast
    have "\<exists>ro. update_selection_resize self p =
        self\<lparr>crop_rect := Some (rect_tuple (ensure_min_size self ro))\<rparr>"
      unfolding update_selection_resize_def o prod.case option.case Let_def
      using o(3) by (intro exI) simp
    then obtain ro where "update_selection_resize self p =
        self\<lparr>crop_rect := Some (rect_tuple (ensure_min_size self ro))\<rparr>" by blast
    then show ?thesis
      unfolding Resize apply_op.simps by (simp only: crop_ok_set [OF ems_ok [OF d]])
  qed
next
  case (Grab ro ho)
  then show ?thesis using ok by (simp add: crop_ok_grab)
qed

lemma run_ops_ok:
  assumes "MIN_CROP_SIZE \<le> display_w self" "MIN_CROP_SIZE \<le> display_h self" "crop_ok self"
  shows "crop_ok (foldl apply_op self ops) \<and>
         display_w (foldl apply_op self ops) = display_w self \<and>
         display_h (foldl apply_op self ops) = display_h self"
  using assms
proof (induction ops arbitrary: self)
  case Nil
  then show ?case by simp
next
  case (Cons op ops)
  have d: "display_w (apply_op self op) = display_w self"
    "display_h (apply_op self op) = display_h self"
    using apply_op_display [of self op] by simp_all
  have ok: "crop_ok (apply_op self op)"
    by (rule apply_op_ok [OF Cons.prems])
  from Cons.IH [of "apply_op self op"] Cons.prems(1,2) ok d
  show ?case by simp
qed

text \<open>
  C1, with the display at least \<open>MIN_CROP_SIZE\<close> pixels wide and high: for every sequence
  of create, move and resize operations (and of grabs, which set \<^verbatim>\<open>original_rect\<close> and
  \<^verbatim>\<open>drag_handle\<close> to any values), started in a state whose selection is absent or
  satisfies the invariant, the resulting \<^verbatim>\<open>crop_rect\<close> is absent or has
  \<open>w \<ge> 4\<close>, \<open>h \<ge> 4\<close> and lies inside \<open>[0, display_w] \<times> [0, display_h]\<close>; the
  operations leave the display size as it is.
\<close>

theorem selection_invariant:
  assumes "MIN_CROP_SIZE \<le> display_w self" and "MIN_CROP_SIZE \<le> display_h self"
    and "crop_ok self"
  shows "crop_ok (run_ops self ops) \<and>
         display_w (run_ops self ops) = display_w self \<and>
         display_h (run_ops self ops) = display_h self"
  unfolding run_ops_def by (rule run_ops_ok [OF assms])

theorem selection_invariant_witness:
  "MIN_CROP_SIZE \<le> display_w example_preview \<and>
   MIN_CROP_SIZE \<le> display_h example_preview \<and>
   crop_ok example_preview \<and>
   crop_ok (run_ops example_preview
     [Create (Point 0 0) (Point 900 1), Move 1000 1000,
      Grab (Some (Rect 0 0 800 4)) (Some h_bottom_right), Resize (Point 2 2)])"
proof -
  have a: "MIN_CROP_SIZE \<le> display_w example_preview"
    by (simp add: example_preview_def MIN_CROP_SIZE_def)
  have b: "MIN_CROP_SIZE \<le> display_h example_preview"
    by (simp add: example_preview_def MIN_CROP_SIZE_def)
  have c: "crop_ok example_preview"
    by (simp add: example_preview_def crop_ok_def rect_ok_def MIN_CROP_SIZE_def)
  from a b c selection_invariant [OF a b c] show ?thesis by blast
qed

text \<open>
  C1 as stated fails on a display that is not degenerate but less than \<open>MIN_CROP_SIZE\<close>
  pixels high: on the display of 800 by 2 pixels, creating a selection from \<open>(0, 0)\<close> to
  \<open>(100, 1)\<close> stores \<open>(0, 0, 100, 4)\<close>, four pixels high on a display of two.
\<close>

theorem selection_invariant_counterexample:
  "current_image small_display = Some (1000, 3) \<and>
   0 < display_w small_display \<and> 0 < display_h small_display \<and>
   display_h small_display = 2 \<and>
   crop_rect (run_ops small_display [Create (Point 0 0) (Point 100 1)]) =
     Some (0, 0, 100, 4) \<and>
   \<not> crop_ok (run_ops small_display [Create (Point 0 0) (Point 100 1)])"
proof -
  have a: "current_image small_display = Some (1000, 3)" by (simp add: small_display_def)
  have b: "0 < display_w small_display" "0 < display_h small_display"
    "display_h small_display = 2"
    by (simp_all add: small_display_def)
  have c: "crop_rect (run_ops small_display [Create (Point 0 0) (Point 100 1)]) =
     Some (0, 0, 100, 4)"
    by code_simp
  have d: "\<not> crop_ok (run_ops small_display [Create (Point 0 0) (Point 100 1)])"
    by code_simp
  from a b c d show ?thesis by blast
qed

section \<open>Output paths\<close>

lemma takeWhile_length_less:
  "\<exists>x\<in>set xs. \<not> P x \<Longrightarrow> length (takeWhile P xs) < length xs"
  by (induction xs) auto

lemma rfind_upper: "rfind c p < int (length p)"
  by (simp add: rfind_def)

lemma rfind_member:
  assumes "c \<in> set p"
  shows "0 \<le> rfind c p"
proof -
  have "\<exists>x\<in>set (rev p). \<not> x \<noteq> c" using assms by simp
  then have "length (takeWhile (\<lambda>x. x \<noteq> c) (rev p)) < length (rev p)"
    by (rule takeWhile_length_less)
  then show ?thesis using assms by (simp add: rfind_def)
qed

lemma rfind_lower: "- 1 \<le> rfind c p"
proof (cases "c \<in> set p")
  case True
  from rfind_member [OF this] show ?thesis by simp
next
  case False
  then show ?thesis by (simp add: rfind_def)
qed

lemma rfind_append_in:
  assumes "c \<in> set ys"
  shows "rfind c (xs @ ys) = int (length xs) + rfind c ys"
proof -
  have "takeWhile (\<lambda>x. x \<noteq> c) (rev ys @ rev xs) = takeWhile (\<lambda>x. x \<noteq> c) (rev ys)"
    by (rule takeWhile_append1 [of c]) (use assms in simp_all)
  then show ?thesis using assms by (simp add: rfind_def)
qed

lemma rfind_append_notin:
  assumes "c \<notin> set ys"
  shows "rfind c (xs @ ys) = rfind c xs"
proof -
  have "takeWhile (\<lambda>x. x \<noteq> c) (rev ys @ rev xs) =
        rev ys @ takeWhile (\<lambda>x. x \<noteq> c) (rev xs)"
    by (rule takeWhile_append2) (use assms in auto)
  then show ?thesis using assms by (simp add: rfind_def)
qed

lemma rfind_append_ge:
  assumes "c \<in> set ys"
  shows "int (length xs) \<le> rfind c (xs @ ys)"
  using rfind_member [OF assms] by (simp add: rfind_append_in [OF assms])

lemma skip_leading_dots_iff:
  "skip_leading_dots p e i d \<longleftrightarrow> (\<exists>j. i \<le> j \<and> j < d \<and> p ! j \<noteq> e)"
proof (induction p e i d rule: skip_leading_dots.induct)
  case (1 p e i d)
  show ?case
  proof (cases "i < d")
    case False
    then have "\<not> skip_leading_dots p e i d"
      by (subst skip_leading_dots.simps) simp
    moreover have "\<not> (\<exists>j. i \<le> j \<and> j < d \<and> p ! j \<noteq> e)" using False by auto
    ultimately show ?thesis by blast
  next
    case True
    show ?thesis
    proof (cases "p ! i \<noteq> e")
      case neq: True
      have "skip_leading_dots p e i d"
        using True neq by (subst skip_leading_dots.simps) simp
      moreover have "\<exists>j. i \<le> j \<and> j < d \<and> p ! j \<noteq> e"
        using True neq by blast
      ultimately show ?thesis by blast
    next
      case eq: False
      have "skip_leading_dots p e i d = skip_leading_dots p e (i + 1) d"
        using True eq by (subst skip_leading_dots.simps) simp
      also have "\<dots> \<longleftrightarrow> (\<exists>j. i + 1 \<le> j \<and> j < d \<and> p ! j \<noteq> e)"
        by (rule 1 [OF True eq])
      also have "\<dots> \<longleftrightarrow> (\<exists>j. i \<le> j \<and> j < d \<and> p ! j \<noteq> e)"
      proof
        assume "\<exists>j. i + 1 \<le> j \<and> j < d \<and> p ! j \<noteq> e"
        then obtain j where "i + 1 \<le> j" "j < d" "p ! j \<noteq> e" by blast
        then have "i \<le> j \<and> j < d \<and> p ! j \<noteq> e" by simp
        then show "\<exists>j. i \<le> j \<and> j < d \<and> p ! j \<noteq> e" by blast
      next
        assume "\<exists>j. i \<le> j \<and> j < d \<and> p ! j \<noteq> e"
        then obtain j where j: "i \<le> j" "j < d" "p ! j \<noteq> e" by blast
        with eq have "j \<noteq> i" by auto
        with j have "i + 1 \<le> j \<and> j < d \<and> p ! j \<noteq> e" by simp
        then show "\<exists>j. i + 1 \<le> j \<and> j < d \<and> p ! j \<noteq> e" by blast
      qed
      finally show ?thesis .
    qed
  qed
qed

lemma genericpath_splitext_concat:
  "genericpath_splitext p sep altsep extsep = (base, ext) \<Longrightarrow> base @ ext = p"
  by (auto simp add: genericpath_splitext_def Let_def split: if_splits)

text \<open>
  Inserting, between the root and the extension, a string that contains neither a
  separator nor the extension separator moves the split point behind the inserted string.
\<close>

lemma genericpath_splitext_insert:
  assumes s: "s \<noteq> []" "sep \<notin> set s" "extsep \<notin> set s"
    "\<And>a. altsep = Some a \<Longrightarrow> a \<notin> set s"
    and sp: "genericpath_splitext p sep altsep extsep = (base, ext)"
  shows "genericpath_splitext (base @ s @ ext) sep altsep extsep = (base @ s, ext)"
proof -
  define sepIndex where
    "sepIndex q = (case altsep of None \<Rightarrow> rfind sep q
                   | Some a \<Rightarrow> max (rfind sep q) (rfind a q))" for q
  have gdef: "genericpath_splitext q sep altsep extsep =
      (if rfind extsep q > sepIndex q \<and>
          skip_leading_dots q extsep (nat (sepIndex q + 1)) (nat (rfind extsep q))
       then (take (nat (rfind extsep q)) q, drop (nat (rfind extsep q)) q)
       else (q, []))" for q
    unfolding genericpath_splitext_def Let_def sepIndex_def by (rule refl)
  have sep_lb: "- 1 \<le> sepIndex q" for q
    using rfind_lower [of sep q] by (cases altsep) (simp_all add: sepIndex_def)
  have sep_app: "sepIndex (xs @ ys) = sepIndex xs"
    if "sep \<notin> set ys" "\<And>a. altsep = Some a \<Longrightarrow> a \<notin> set ys" for xs ys
    using that by (cases altsep) (simp_all add: sepIndex_def rfind_append_notin)
  have le_sep: "rfind sep q \<le> sepIndex q" for q
    by (cases altsep) (simp_all add: sepIndex_def)
  have le_alt: "rfind a q \<le> sepIndex q" if "altsep = Some a" for a q
    using that by (simp add: sepIndex_def)
  show ?thesis
  proof (cases "rfind extsep p > sepIndex p \<and>
      skip_leading_dots p extsep (nat (sepIndex p + 1)) (nat (rfind extsep p))")
    case False
    from sp have be: "base = p" "ext = []"
      unfolding gdef [of p] if_not_P [OF False] by simp_all
    have i1: "sepIndex (p @ s) = sepIndex p"
      by (rule sep_app) (use s in auto)
    have i2: "rfind extsep (p @ s) = rfind extsep p"
      by (rule rfind_append_notin [OF s(3)])
    have d: "nat (rfind extsep p) \<le> length p"
      using rfind_upper [of extsep p] by simp
    have sk: "skip_leading_dots (p @ s) extsep i (nat (rfind extsep p)) =
              skip_leading_dots p extsep i (nat (rfind extsep p))" for i
    proof -
      have "(i \<le> j \<and> j < nat (rfind extsep p) \<and> (p @ s) ! j \<noteq> extsep) =
            (i \<le> j \<and> j < nat (rfind extsep p) \<and> p ! j \<noteq> extsep)" for j
      proof (cases "j < nat (rfind extsep p)")
        case True
        then have "j < length p" using d by simp
        then have "(p @ s) ! j = p ! j" by (simp add: nth_append)
        then show ?thesis by simp
      next
        case False
        then show ?thesis by simp
      qed
      then show ?thesis unfolding skip_leading_dots_iff by simp
    qed
    have ncond: "\<not> (rfind extsep (p @ s) > sepIndex (p @ s) \<and>
        skip_leading_dots (p @ s) extsep (nat (sepIndex (p @ s) + 1))
          (nat (rfind extsep (p @ s))))"
      unfolding i1 i2 sk by (rule False)
    have "genericpath_splitext (p @ s) sep altsep extsep = (p @ s, [])"
      unfolding gdef [of "p @ s"] by (rule if_not_P [OF ncond])
    then show ?thesis unfolding be by simp
  next
    case True
    define d where "d = nat (rfind extsep p)"
    let ?q = "take d p @ s @ drop d p"
    from True have gt: "sepIndex p < rfind extsep p" by simp
    have dpos: "0 \<le> rfind extsep p" using gt sep_lb [of p] by linarith
    have dint: "rfind extsep p = int d" using dpos by (simp add: d_def)
    have dlt: "d < length p" using rfind_upper [of extsep p] dint by linarith
    from sp have be: "base = take d p" "ext = drop d p"
      unfolding gdef [of p] if_P [OF True] d_def by simp_all
    have lt: "length (take d p) = d" using dlt by simp
    have l: "length (take d p @ s) = d + length s"
      unfolding length_append lt ..
    have e_in: "extsep \<in> set (drop d p)"
    proof (rule ccontr)
      assume n: "extsep \<notin> set (drop d p)"
      have "rfind extsep (take d p @ drop d p) = rfind extsep (take d p)"
        by (rule rfind_append_notin [OF n])
      then have a: "rfind extsep p = rfind extsep (take d p)"
        unfolding append_take_drop_id .
      have "rfind extsep (take d p) < int (length (take d p))" by (rule rfind_upper)
      then have "rfind extsep (take d p) < int d" unfolding lt .
      with a dint show False by linarith
    qed
    have e0: "rfind extsep (drop d p) = 0"
    proof -
      have "rfind extsep (take d p @ drop d p) =
            int (length (take d p)) + rfind extsep (drop d p)"
        by (rule rfind_append_in [OF e_in])
      then have "rfind extsep p = int d + rfind extsep (drop d p)"
        unfolding append_take_drop_id lt .
      with dint show ?thesis by linarith
    qed
    have nin: "c \<notin> set (drop d p)" if "rfind c p \<le> sepIndex p" for c
    proof
      assume "c \<in> set (drop d p)"
      then have "int (length (take d p)) \<le> rfind c (take d p @ drop d p)"
        by (rule rfind_append_ge)
      then have "int d \<le> rfind c p" unfolding append_take_drop_id lt .
      with that gt dint show False by linarith
    qed
    have n1: "sep \<notin> set (drop d p)" by (rule nin [OF le_sep])
    have n2: "a \<notin> set (drop d p)" if "altsep = Some a" for a
      by (rule nin [OF le_alt [OF that]])
    have iq: "sepIndex ?q = sepIndex p"
    proof -
      have a: "sepIndex (take d p @ (s @ drop d p)) = sepIndex (take d p)"
        by (rule sep_app) (use s n1 n2 in auto)
      have "sepIndex (take d p @ drop d p) = sepIndex (take d p)"
        by (rule sep_app) (use n1 n2 in auto)
      then have b: "sepIndex p = sepIndex (take d p)"
        unfolding append_take_drop_id .
      show ?thesis unfolding a b ..
    qed
    have dq: "rfind extsep ?q = int (d + length s)"
    proof -
      have "rfind extsep ((take d p @ s) @ drop d p) =
            int (length (take d p @ s)) + rfind extsep (drop d p)"
        by (rule rfind_append_in [OF e_in])
      then have "rfind extsep (take d p @ s @ drop d p) = int (d + length s) + 0"
        unfolding l e0 append_assoc .
      then show ?thesis by simp
    qed
    have skq: "skip_leading_dots ?q extsep (nat (sepIndex p + 1)) (d + length s)"
      unfolding skip_leading_dots_iff
    proof (intro exI conjI)
      show "nat (sepIndex p + 1) \<le> d" using gt dint by linarith
      show "d < d + length s" using s(1) by simp
      have "(take d p @ (s @ drop d p)) ! (length (take d p) + 0) = (s @ drop d p) ! 0"
        by (rule nth_append_length_plus)
      then have "?q ! d = (s @ drop d p) ! 0" unfolding lt by simp
      also have "\<dots> = s ! 0" using s(1) by (simp add: nth_append)
      finally have "?q ! d = s ! 0" .
      moreover have "s ! 0 \<in> set s" using s(1) by simp
      ultimately show "?q ! d \<noteq> extsep" using s(3) by metis
    qed
    have c1: "sepIndex p < int (d + length s)" using gt dint by simp
    have cond: "rfind extsep ?q > sepIndex ?q \<and>
        skip_leading_dots ?q extsep (nat (sepIndex ?q + 1)) (nat (rfind extsep ?q))"
      unfolding iq dq nat_int using c1 skq by (rule conjI)
    have "take d p @ s = take (length (take d p @ s)) ((take d p @ s) @ drop d p) \<and>
          drop d p = drop (length (take d p @ s)) ((take d p @ s) @ drop d p)"
      by (rule iffD1 [OF append_eq_conv_conj refl])
    then have td: "take d p @ s = take (d + length s) ?q \<and>
          drop d p = drop (d + length s) ?q"
      unfolding l append_assoc .
    have tq: "take (d + length s) ?q = take d p @ s"
      by (rule sym [OF conjunct1 [OF td]])
    have drq: "drop (d + length s) ?q = drop d p"
      by (rule sym [OF conjunct2 [OF td]])
    have "genericpath_splitext ?q sep altsep extsep =
          (take (nat (rfind extsep ?q)) ?q, drop (nat (rfind extsep ?q)) ?q)"
      unfolding gdef [of ?q] by (rule if_P [OF cond])
    also have "\<dots> = (take d p @ s, drop d p)"
      unfolding dq nat_int tq drq by (rule refl)
    finally show ?thesis unfolding be .
  qed
qed

lemma splitext_concat:
  "splitext os p = (base, ext) \<Longrightarrow> base @ ext = p"
  by (cases os) (simp_all add: splitext_def genericpath_splitext_concat)

lemma splitext_insert_bc:
  assumes "splitext os p = (base, ext)"
  shows "splitext os (base @ ''_bc'' @ ext) = (base @ ''_bc'', ext)"
proof -
  have c: "''_bc'' \<noteq> []" "CHR ''/'' \<notin> set ''_bc''" "CHR ''.'' \<notin> set ''_bc''"
    "CHR 0x5C \<notin> set ''_bc''"
    by simp_all
  show ?thesis
  proof (cases os)
    case posix
    have a: "\<And>a. (None :: char option) = Some a \<Longrightarrow> a \<notin> set ''_bc''" by simp
    from assms have g: "genericpath_splitext p CHR ''/'' None CHR ''.'' = (base, ext)"
      by (simp add: splitext_def posix)
    have "genericpath_splitext (base @ ''_bc'' @ ext) CHR ''/'' None CHR ''.'' =
          (base @ ''_bc'', ext)"
      by (rule genericpath_splitext_insert [OF c(1) c(2) c(3) a g])
    then show ?thesis unfolding splitext_def posix os_name.case .
  next
    case nt
    have a: "\<And>a. Some CHR ''/'' = Some a \<Longrightarrow> a \<notin> set ''_bc''" by auto
    from assms have g:
      "genericpath_splitext p (CHR 0x5C) (Some CHR ''/'') CHR ''.'' = (base, ext)"
      by (simp add: splitext_def nt)
    have "genericpath_splitext (base @ ''_bc'' @ ext) (CHR 0x5C) (Some CHR ''/'') CHR ''.'' =
          (base @ ''_bc'', ext)"
      by (rule genericpath_splitext_insert [OF c(1) c(4) c(3) a g])
    then show ?thesis unfolding splitext_def nt os_name.case .
  qed
qed

lemma endswith_strip:
  "endswith b s \<Longrightarrow> take (length b - length s) b @ s = b"
  unfolding endswith_def by (metis append_take_drop_id)

text \<open>
  C8: \<^verbatim>\<open>add_bc_suffix\<close> is idempotent: for every path \<open>p\<close>, on POSIX and on Windows,
  applying it to its own result gives that result again, so the suffix \<^verbatim>\<open>_bc\<close> is not
  duplicated.
\<close>

theorem add_bc_suffix_idempotent:
  "add_bc_suffix os (add_bc_suffix os p) = add_bc_suffix os p"
proof -
  obtain base ext where sp: "splitext os p = (base, ext)"
    by (cases "splitext os p") auto
  have cat: "base @ ext = p" by (rule splitext_concat [OF sp])
  show ?thesis
  proof (cases "endswith base ''_bc''")
    case True
    have "add_bc_suffix os p = (take (length base - 3) base @ ''_bc'') @ ext"
      using True by (simp add: add_bc_suffix_def sp Let_def)
    also have "take (length base - 3) base @ ''_bc'' = base"
      using endswith_strip [OF True] by (simp add: numeral_3_eq_3)
    finally have idem: "add_bc_suffix os p = p" using cat by simp
    show ?thesis by (simp add: idem)
  next
    case False
    have q: "add_bc_suffix os p = base @ ''_bc'' @ ext"
      using False by (simp add: add_bc_suffix_def sp Let_def)
    have sq: "splitext os (base @ ''_bc'' @ ext) = (base @ ''_bc'', ext)"
      by (rule splitext_insert_bc [OF sp])
    have ew: "endswith (base @ ''_bc'') ''_bc''" by (simp add: endswith_def)
    have "add_bc_suffix os (base @ ''_bc'' @ ext) =
          take (length (base @ ''_bc'') - 3) (base @ ''_bc'') @ ''_bc'' @ ext"
      unfolding add_bc_suffix_def Let_def sq prod.case if_P [OF ew] by (rule refl)
    also have "\<dots> = base @ ''_bc'' @ ext" by simp
    finally show ?thesis unfolding q .
  qed
qed

section \<open>History\<close>

lemma snapshot_eta:
  "\<lparr>snap_paths = snap_paths sn, snap_images = snap_images sn,
     snap_flags = snap_flags sn\<rparr> = (sn :: 'img snapshot)"
  by (cases sn) simp

lemma history_push_load:
  "history (PushHistory (load_docs sn self)) =
     (if MAX_HISTORY < length (history self) + 1 then tl (history self @ [sn])
      else history self @ [sn])"
  by (simp add: PushHistory_def load_docs_def Let_def snapshot_eta)

lemma drop_tl_shift:
  assumes "k < length xs"
  shows "drop (length (tl xs) - k) (tl xs) = drop (length xs - k) xs"
proof -
  have "length xs - k = Suc (length (tl xs) - k)" using assms by simp
  then show ?thesis by (simp add: drop_Suc)
qed

lemma push_all_history:
  "length (history self) \<le> MAX_HISTORY \<Longrightarrow>
   history (push_all sns self) =
     drop (length (history self @ sns) - MAX_HISTORY) (history self @ sns)"
proof (induction sns arbitrary: self)
  case Nil
  then show ?case by simp
next
  case (Cons sn sns)
  let ?s = "PushHistory (load_docs sn self)"
  show ?case
  proof (cases "MAX_HISTORY < length (history self) + 1")
    case False
    then have h: "history ?s = history self @ [sn]" by (simp add: history_push_load)
    have "length (history ?s) \<le> MAX_HISTORY" using False h by simp
    from Cons.IH [OF this] show ?thesis by (simp add: h)
  next
    case True
    then have h: "history ?s = tl (history self @ [sn])" by (simp add: history_push_load)
    have len: "length (history ?s) \<le> MAX_HISTORY" using Cons.prems h by simp
    have e: "history ?s @ sns = tl (history self @ sn # sns)"
      using h by (cases "history self") simp_all
    have k: "MAX_HISTORY < length (history self @ sn # sns)" using True by simp
    from Cons.IH [OF len] have
      "history (push_all sns ?s) = drop (length (history ?s @ sns) - MAX_HISTORY) (history ?s @ sns)" .
    also have "\<dots> = drop (length (history self @ sn # sns) - MAX_HISTORY) (history self @ sn # sns)"
      unfolding e by (rule drop_tl_shift [OF k])
    finally show ?thesis by simp
  qed
qed

text \<open>
  C5: for every sequence of snapshot pushes made through \<^verbatim>\<open>PushHistory\<close>, starting from
  a history of at most \<open>MAX_HISTORY\<close> snapshots, the history holds at most
  \<open>MAX_HISTORY = 10\<close> snapshots afterwards and consists of the last \<open>MAX_HISTORY\<close>
  entries of the old history followed by the pushed snapshots, in their order: the oldest
  ones are discarded first. In particular \<open>MAX_HISTORY + 1\<close> pushes on an empty history
  leave exactly \<open>MAX_HISTORY\<close> snapshots, all but the first one pushed.
\<close>

theorem PushHistory_bounded_fifo:
  assumes "length (history self) \<le> MAX_HISTORY"
  shows "length (history (push_all sns self)) \<le> MAX_HISTORY \<and>
         history (push_all sns self) =
           drop (length (history self @ sns) - MAX_HISTORY) (history self @ sns) \<and>
         (history self = [] \<and> length sns = MAX_HISTORY + 1 \<longrightarrow>
            history (push_all sns self) = tl sns \<and>
            length (history (push_all sns self)) = MAX_HISTORY)"
proof -
  have e: "history (push_all sns self) =
           drop (length (history self @ sns) - MAX_HISTORY) (history self @ sns)"
    by (rule push_all_history [OF assms])
  have l: "length (history (push_all sns self)) \<le> MAX_HISTORY"
    unfolding e by simp
  have p: "history self = [] \<and> length sns = MAX_HISTORY + 1 \<longrightarrow>
            history (push_all sns self) = tl sns \<and>
            length (history (push_all sns self)) = MAX_HISTORY"
    unfolding e by (cases sns) (simp_all add: drop_Suc)
  from l e p show ?thesis by blast
qed

theorem PushHistory_bounded_fifo_witness:
  "length (history empty_frame) \<le> MAX_HISTORY \<and>
   history empty_frame = [] \<and>
   length [example_snapshot 0, example_snapshot 1, example_snapshot 2, example_snapshot 3,
           example_snapshot 4, example_snapshot 5, example_snapshot 6, example_snapshot 7,
           example_snapshot 8, example_snapshot 9, example_snapshot 10] = MAX_HISTORY + 1 \<and>
   history (push_all
     [example_snapshot 0, example_snapshot 1, example_snapshot 2, example_snapshot 3,
      example_snapshot 4, example_snapshot 5, example_snapshot 6, example_snapshot 7,
      example_snapshot 8, example_snapshot 9, example_snapshot 10] empty_frame) =
     [example_snapshot 1, example_snapshot 2, example_snapshot 3,
      example_snapshot 4, example_snapshot 5, example_snapshot 6, example_snapshot 7,
      example_snapshot 8, example_snapshot 9, example_snapshot 10] \<and>
   length (history (push_all
     [example_snapshot 0, example_snapshot 1, example_snapshot 2, example_snapshot 3,
      example_snapshot 4, example_snapshot 5, example_snapshot 6, example_snapshot 7,
      example_snapshot 8, example_snapshot 9, example_snapshot 10] empty_frame)) = 10"
proof -
  have h: "history empty_frame = []" by (simp add: empty_frame_def)
  have a: "length (history empty_frame) \<le> MAX_HISTORY" unfolding h by simp
  have n: "length [example_snapshot 0, example_snapshot 1, example_snapshot 2,
           example_snapshot 3, example_snapshot 4, example_snapshot 5, example_snapshot 6,
           example_snapshot 7, example_snapshot 8, example_snapshot 9, example_snapshot 10] =
           MAX_HISTORY + 1"
    by (simp add: MAX_HISTORY_def)
  from PushHistory_bounded_fifo [OF a,
    of "[example_snapshot 0, example_snapshot 1, example_snapshot 2,
           example_snapshot 3, example_snapshot 4, example_snapshot 5, example_snapshot 6,
           example_snapshot 7, example_snapshot 8, example_snapshot 9, example_snapshot 10]"]
    h n a
  show ?thesis by (simp add: MAX_HISTORY_def)
qed

lemma push_ends:
  "\<exists>ys. history (PushHistory (load_docs sn self)) = ys @ [sn]"
proof (cases "MAX_HISTORY < length (history self) + 1")
  case False
  then have "history (PushHistory (load_docs sn self)) = history self @ [sn]"
    by (simp add: history_push_load)
  then show ?thesis by blast
next
  case True
  then have n: "history self \<noteq> []" by (auto simp add: MAX_HISTORY_def)
  from True have "history (PushHistory (load_docs sn self)) = tl (history self @ [sn])"
    by (simp add: history_push_load)
  also have "\<dots> = tl (history self) @ [sn]" using n by simp
  finally show ?thesis by blast
qed

lemma push_push_ends:
  "\<exists>ys. history (push_all [a, b] self) = ys @ [a, b]"
proof -
  define s1 where "s1 = PushHistory (load_docs a self)"
  from push_ends [of a self] obtain xs where xs: "history s1 = xs @ [a]"
    unfolding s1_def by blast
  have p: "push_all [a, b] self = PushHistory (load_docs b s1)"
    unfolding s1_def by simp
  show ?thesis
  proof (cases "MAX_HISTORY < length (history s1) + 1")
    case False
    then have "history (PushHistory (load_docs b s1)) = history s1 @ [b]"
      by (simp add: history_push_load)
    then have "history (push_all [a, b] self) = xs @ [a, b]"
      unfolding p xs by simp
    then show ?thesis by blast
  next
    case True
    then have n: "xs \<noteq> []" unfolding xs by (auto simp add: MAX_HISTORY_def)
    from True have "history (PushHistory (load_docs b s1)) = tl (history s1 @ [b])"
      by (simp add: history_push_load)
    also have "\<dots> = tl xs @ [a, b]" unfolding xs using n by simp
    finally have "history (push_all [a, b] self) = tl xs @ [a, b]"
      unfolding p .
    then show ?thesis by blast
  qed
qed

text \<open>
  C6, with the value the code returns: \<^verbatim>\<open>OnRevertAll\<close> returns \<^verbatim>\<open>None\<close> on every path.
  With fewer than two snapshots in the history it changes nothing. Otherwise it discards
  the most recent snapshot and makes the paths, images and flags of the new last snapshot
  the current session state; after two pushes these are the documents of the first of the
  two.
\<close>

theorem OnRevertAll_spec:
  "(length (history self) < 2 \<longrightarrow> OnRevertAll self = (self, PyNone)) \<and>
   (2 \<le> length (history self) \<longrightarrow>
      snd (OnRevertAll self) = PyNone \<and>
      history (fst (OnRevertAll self)) = butlast (history self) \<and>
      file_paths (fst (OnRevertAll self)) = snap_paths (last (butlast (history self))) \<and>
      images (fst (OnRevertAll self)) = snap_images (last (butlast (history self))) \<and>
      reduced_flags (fst (OnRevertAll self)) = snap_flags (last (butlast (history self))) \<and>
      last (history (fst (OnRevertAll self))) = last (butlast (history self))) \<and>
   file_paths (fst (OnRevertAll (push_all [a, b] self))) = snap_paths a \<and>
   images (fst (OnRevertAll (push_all [a, b] self))) = snap_images a \<and>
   reduced_flags (fst (OnRevertAll (push_all [a, b] self))) = snap_flags a \<and>
   last (history (fst (OnRevertAll (push_all [a, b] self)))) = a"
proof -
  have A: "length (history self) < 2 \<longrightarrow> OnRevertAll self = (self, PyNone)"
    by (simp add: OnRevertAll_def)
  have B: "2 \<le> length (history s) \<longrightarrow>
      snd (OnRevertAll s) = PyNone \<and>
      history (fst (OnRevertAll s)) = butlast (history s) \<and>
      file_paths (fst (OnRevertAll s)) = snap_paths (last (butlast (history s))) \<and>
      images (fst (OnRevertAll s)) = snap_images (last (butlast (history s))) \<and>
      reduced_flags (fst (OnRevertAll s)) = snap_flags (last (butlast (history s))) \<and>
      last (history (fst (OnRevertAll s))) = last (butlast (history s))"
    for s :: "'a frame"
    by (simp add: OnRevertAll_def Let_def)
  from push_push_ends [of a b self] obtain ys where
    ys: "history (push_all [a, b] self) = ys @ [a, b]" by blast
  have l: "2 \<le> length (history (push_all [a, b] self))" unfolding ys by simp
  have bl: "last (butlast (history (push_all [a, b] self))) = a"
    unfolding ys by (simp add: butlast_append)
  from B [of "push_all [a, b] self"] l
  have C: "file_paths (fst (OnRevertAll (push_all [a, b] self))) = snap_paths a \<and>
   images (fst (OnRevertAll (push_all [a, b] self))) = snap_images a \<and>
   reduced_flags (fst (OnRevertAll (push_all [a, b] self))) = snap_flags a \<and>
   last (history (fst (OnRevertAll (push_all [a, b] self)))) = a"
    unfolding bl by blast
  from A B [of self] C show ?thesis by blast
qed

theorem OnRevertAll_spec_witness:
  "length (history empty_frame) < 2 \<and>
   OnRevertAll empty_frame = (empty_frame, PyNone) \<and>
   2 \<le> length (history two_frame) \<and>
   snd (OnRevertAll two_frame) = PyNone \<and>
   history (fst (OnRevertAll two_frame)) = [example_snapshot 0] \<and>
   file_paths (fst (OnRevertAll two_frame)) = snap_paths (example_snapshot 0) \<and>
   images (fst (OnRevertAll two_frame)) = [0] \<and>
   reduced_flags (fst (OnRevertAll two_frame)) = snap_flags (example_snapshot 0) \<and>
   images (fst (OnRevertAll (push_all [example_snapshot 3, example_snapshot 4] two_frame))) =
     [3]"
proof -
  have a: "length (history empty_frame) < 2" by (simp add: empty_frame_def)
  have b: "2 \<le> length (history two_frame)" by (simp add: two_frame_def)
  have h: "history two_frame = [example_snapshot 0, example_snapshot 1]"
    by (simp add: two_frame_def)
  have i: "snap_images (example_snapshot 0) = [0]" "snap_images (example_snapshot 3) = [3]"
    by (simp_all add: example_snapshot_def)
  from OnRevertAll_spec [of empty_frame] a
  have c: "OnRevertAll empty_frame = (empty_frame, PyNone)" by blast
  from OnRevertAll_spec [of two_frame "example_snapshot 3" "example_snapshot 4"] b
  have d: "snd (OnRevertAll two_frame) = PyNone \<and>
      history (fst (OnRevertAll two_frame)) = butlast (history two_frame) \<and>
      file_paths (fst (OnRevertAll two_frame)) = snap_paths (last (butlast (history two_frame))) \<and>
      images (fst (OnRevertAll two_frame)) = snap_images (last (butlast (history two_frame))) \<and>
      reduced_flags (fst (OnRevertAll two_frame)) =
        snap_flags (last (butlast (history two_frame)))"
    and e: "images (fst (OnRevertAll
        (push_all [example_snapshot 3, example_snapshot 4] two_frame))) =
      snap_images (example_snapshot 3)"
    by blast+
  from a b c d e show ?thesis unfolding h by (simp add: i)
qed

text \<open>
  C6 as stated fails in the value returned: the call returns \<^verbatim>\<open>None\<close>, which is not the
  boolean \<^verbatim>\<open>False\<close>, when it does nothing, and it returns \<^verbatim>\<open>None\<close> as well when it
  reverts, so the value does not tell the two cases apart.
\<close>

theorem OnRevertAll_returns_counterexample:
  "length (history empty_frame) < 2 \<and>
   snd (OnRevertAll empty_frame) = PyNone \<and>
   snd (OnRevertAll empty_frame) \<noteq> PyBool False \<and>
   2 \<le> length (history two_frame) \<and>
   fst (OnRevertAll two_frame) \<noteq> two_frame \<and>
   snd (OnRevertAll two_frame) = snd (OnRevertAll empty_frame)"
proof -
  have a: "length (history empty_frame) < 2" by (simp add: empty_frame_def)
  have b: "snd (OnRevertAll empty_frame) = PyNone"
    by (simp add: OnRevertAll_def empty_frame_def)
  have c: "2 \<le> length (history two_frame)" by (simp add: two_frame_def)
  have d: "snd (OnRevertAll two_frame) = PyNone"
    by (simp add: OnRevertAll_def Let_def two_frame_def)
  have "history (fst (OnRevertAll two_frame)) = [example_snapshot 0]"
    by (simp add: OnRevertAll_def Let_def two_frame_def)
  moreover have "history two_frame = [example_snapshot 0, example_snapshot 1]"
    by (simp add: two_frame_def)
  ultimately have e: "fst (OnRevertAll two_frame) \<noteq> two_frame" by auto
  from a b c d e show ?thesis by simp
qed

section \<open>Adding files\<close>

lemma AddFiles_loop_paths:
  "\<exists>added. file_paths (AddFiles_loop os opened xs self) = file_paths self @ added \<and>
     distinct added \<and> set added \<inter> set (file_paths self) = {} \<and>
     set added \<subseteq> {p \<in> snd ` set xs.
        lower (snd (splitext os p)) \<in>
          set [''.jpg'', ''.jpeg'', ''.png'', ''.bmp'', ''.tiff'', ''.tif'']}"
proof (induction xs arbitrary: self)
  case Nil
  then show ?case by simp
next
  case (Cons a xs)
  obtain i p where a: "a = (i, p)" by (cases a) auto
  let ?ok = "lower (snd (splitext os p)) \<in>
          set [''.jpg'', ''.jpeg'', ''.png'', ''.bmp'', ''.tiff'', ''.tif''] \<and>
          p \<notin> set (file_paths self)"
  show ?case
  proof (cases "?ok \<and> opened i \<noteq> None")
    case False
    then have e: "AddFiles_loop os opened (a # xs) self = AddFiles_loop os opened xs self"
      unfolding a by (auto simp add: Let_def)
    from Cons.IH [of self] show ?thesis unfolding e by auto
  next
    case True
    then obtain img where img: "opened i = Some img" by auto
    let ?s = "self\<lparr>file_paths := file_paths self @ [p], images := images self @ [img],
                  reduced_flags := reduced_flags self @ [False]\<rparr>"
    have e: "AddFiles_loop os opened (a # xs) self = AddFiles_loop os opened xs ?s"
      unfolding a using True img by (simp add: Let_def)
    from Cons.IH [of ?s] obtain added where
      1: "file_paths (AddFiles_loop os opened xs ?s) = (file_paths self @ [p]) @ added"
      and 2: "distinct added"
      and 3: "set added \<inter> set (file_paths self @ [p]) = {}"
      and 4: "set added \<subseteq> {p \<in> snd ` set xs.
        lower (snd (splitext os p)) \<in>
          set [''.jpg'', ''.jpeg'', ''.png'', ''.bmp'', ''.tiff'', ''.tif'']}"
      by auto
    have "file_paths (AddFiles_loop os opened (a # xs) self) = file_paths self @ (p # added)"
      unfolding e 1 by simp
    moreover have "distinct (p # added)" using 2 3 by auto
    moreover have "set (p # added) \<inter> set (file_paths self) = {}" using 3 True by auto
    moreover have "set (p # added) \<subseteq> {p \<in> snd ` set (a # xs).
        lower (snd (splitext os p)) \<in>
          set [''.jpg'', ''.jpeg'', ''.png'', ''.bmp'', ''.tiff'', ''.tif'']}"
      using 4 True unfolding a by auto
    ultimately show ?thesis by blast
  qed
qed

lemma AddFiles_file_paths:
  "file_paths (AddFiles os opened paths self) =
   file_paths (AddFiles_loop os opened (zip [0..<length paths] paths) self)"
  by (simp add: AddFiles_def Let_def PushHistory_def)

text \<open>
  C9, for a path list without duplicates: for every list of paths, \<^verbatim>\<open>AddFiles\<close> appends
  to the path list of the session only paths of the list whose lower-cased extension is one
  of \<^verbatim>\<open>.jpg\<close>, \<^verbatim>\<open>.jpeg\<close>, \<^verbatim>\<open>.png\<close>, \<^verbatim>\<open>.bmp\<close>, \<^verbatim>\<open>.tiff\<close>, \<^verbatim>\<open>.tif\<close> and that are not
  yet in the path list; the appended paths are pairwise distinct, so a path list without
  duplicates has no duplicates after \<^verbatim>\<open>AddFiles\<close>.
\<close>

theorem AddFiles_no_duplicates:
  "\<exists>added. file_paths (AddFiles os opened paths self) = file_paths self @ added \<and>
     distinct added \<and> set added \<inter> set (file_paths self) = {} \<and>
     set added \<subseteq> {p \<in> set paths.
        lower (snd (splitext os p)) \<in>
          set [''.jpg'', ''.jpeg'', ''.png'', ''.bmp'', ''.tiff'', ''.tif'']} \<and>
     (distinct (file_paths self) \<longrightarrow> distinct (file_paths (AddFiles os opened paths self)))"
proof -
  have s: "snd ` set (zip [0..<length paths] paths) = set paths"
    by (metis length_upt map_snd_zip set_map minus_nat.diff_0)
  from AddFiles_loop_paths [of os opened "zip [0..<length paths] paths" self]
  obtain added where
    1: "file_paths (AddFiles os opened paths self) = file_paths self @ added"
    and 2: "distinct added" and 3: "set added \<inter> set (file_paths self) = {}"
    and 4: "set added \<subseteq> {p \<in> set paths.
        lower (snd (splitext os p)) \<in>
          set [''.jpg'', ''.jpeg'', ''.png'', ''.bmp'', ''.tiff'', ''.tif'']}"
    unfolding AddFiles_file_paths s by blast
  have "distinct (file_paths self) \<longrightarrow> distinct (file_paths (AddFiles os opened paths self))"
    unfolding 1 using 2 3 by auto
  with 1 2 3 4 show ?thesis by blast
qed

theorem AddFiles_no_duplicates_witness:
  "distinct (file_paths mixed_frame) \<and>
   file_paths (AddFiles posix (\<lambda>i. Some i) [''a.png'', ''c.PNG'', ''c.PNG'', ''d.txt'']
      mixed_frame) = [''a.png'', ''b.jpg'', ''c.PNG''] \<and>
   distinct (file_paths (AddFiles posix (\<lambda>i. Some i)
      [''a.png'', ''c.PNG'', ''c.PNG'', ''d.txt''] mixed_frame))"
proof -
  have d: "distinct (file_paths mixed_frame)" by (simp add: mixed_frame_def)
  have e: "file_paths (AddFiles posix (\<lambda>i. Some i) [''a.png'', ''c.PNG'', ''c.PNG'', ''d.txt'']
      mixed_frame) = [''a.png'', ''b.jpg'', ''c.PNG'']"
    by code_simp
  from AddFiles_no_duplicates [of posix "\<lambda>i. Some i"
      "[''a.png'', ''c.PNG'', ''c.PNG'', ''d.txt'']" mixed_frame] d
  have "distinct (file_paths (AddFiles posix (\<lambda>i. Some i)
      [''a.png'', ''c.PNG'', ''c.PNG'', ''d.txt''] mixed_frame))"
    by blast
  with d e show ?thesis by blast
qed

text \<open>
  C9 as stated fails when the path list holds duplicates before the call, and the batch
  crop produces them: \<^verbatim>\<open>a.png\<close> and \<^verbatim>\<open>a_bc.png\<close>, loaded into an empty session, are both
  saved as \<^verbatim>\<open>a_bc.png\<close> by \<^verbatim>\<open>OnTrimAll\<close>, and adding \<^verbatim>\<open>c.png\<close> then leaves the path
  list \<^verbatim>\<open>a_bc.png\<close>, \<^verbatim>\<open>a_bc.png\<close>, \<^verbatim>\<open>c.png\<close>.
\<close>

theorem AddFiles_duplicates_counterexample:
  "file_paths (AddFiles posix (\<lambda>i. Some i) [''a.png'', ''a_bc.png''] empty_frame) =
     [''a.png'', ''a_bc.png''] \<and>
   file_paths (OnTrimAll posix (\<lambda>i. Some i) (Some 0, Some 0, Some 5, Some 5)
     (AddFiles posix (\<lambda>i. Some i) [''a.png'', ''a_bc.png''] empty_frame)) =
     [''a_bc.png'', ''a_bc.png''] \<and>
   file_paths (AddFiles posix (\<lambda>i. Some i) [''c.png'']
     (OnTrimAll posix (\<lambda>i. Some i) (Some 0, Some 0, Some 5, Some 5)
       (AddFiles posix (\<lambda>i. Some i) [''a.png'', ''a_bc.png''] empty_frame))) =
     [''a_bc.png'', ''a_bc.png'', ''c.png''] \<and>
   \<not> distinct (file_paths (AddFiles posix (\<lambda>i. Some i) [''c.png'']
     (OnTrimAll posix (\<lambda>i. Some i) (Some 0, Some 0, Some 5, Some 5)
       (AddFiles posix (\<lambda>i. Some i) [''a.png'', ''a_bc.png''] empty_frame))))"
proof -
  have a: "file_paths (AddFiles posix (\<lambda>i. Some i) [''a.png'', ''a_bc.png''] empty_frame) =
     [''a.png'', ''a_bc.png'']"
    by code_simp
  have b: "file_paths (OnTrimAll posix (\<lambda>i. Some i) (Some 0, Some 0, Some 5, Some 5)
     (AddFiles posix (\<lambda>i. Some i) [''a.png'', ''a_bc.png''] empty_frame)) =
     [''a_bc.png'', ''a_bc.png'']"
    by code_simp
  have c: "file_paths (AddFiles posix (\<lambda>i. Some i) [''c.png'']
     (OnTrimAll posix (\<lambda>i. Some i) (Some 0, Some 0, Some 5, Some 5)
       (AddFiles posix (\<lambda>i. Some i) [''a.png'', ''a_bc.png''] empty_frame))) =
     [''a_bc.png'', ''a_bc.png'', ''c.png'']"
    by code_simp
  have d: "\<not> distinct [''a_bc.png'', ''a_bc.png'', ''c.png'']" by simp
  from a b c d show ?thesis by simp
qed

section \<open>Batch operations\<close>

lemma OnTrimAll_loop_acc:
  "fst (OnTrimAll_loop os self saved xs (np, ni, nf)) =
     np @ map (\<lambda>(i, p, img). add_bc_suffix os p) (filter (\<lambda>(i, p, img). saved i \<noteq> None) xs) \<and>
   fst (snd (OnTrimAll_loop os self saved xs (np, ni, nf))) =
     ni @ map (\<lambda>(i, p, img). the (saved i)) (filter (\<lambda>(i, p, img). saved i \<noteq> None) xs)"
proof (induction xs arbitrary: np ni nf)
  case Nil
  then show ?case by simp
next
  case (Cons a xs)
  obtain i p img where a: "a = (i, p, img)" by (cases a) auto
  show ?case
  proof (cases "saved i")
    case None
    then show ?thesis using Cons.IH [of np ni nf] by (simp add: a)
  next
    case (Some reopened)
    show ?thesis
    proof (cases "flag_of self p")
      case None
      then show ?thesis
        using Some Cons.IH [of "np @ [add_bc_suffix os p]" "ni @ [reopened]" nf]
        by (simp add: a)
    next
      case (Some b)
      then show ?thesis
        using \<open>saved i = Some reopened\<close>
          Cons.IH [of "np @ [add_bc_suffix os p]" "ni @ [reopened]" "nf @ [b]"]
        by (simp add: a)
    qed
  qed
qed

lemma GetValidatedBox_None_iff:
  "GetValidatedBox (xs, ys, xe, ye) = None \<longleftrightarrow>
     (xs = None \<or> ys = None \<or> xe = None \<or> ye = None \<or>
      the xe \<le> the xs \<or> the ye \<le> the ys)"
  by (cases xs; cases ys; cases xe; cases ye) (simp_all add: GetValidatedBox_def)

lemma OnTrimAll_cases:
  fixes self :: "'img frame"
  defines "succ \<equiv> \<lambda>saved. filter (\<lambda>(i, p, img). saved i \<noteq> (None :: 'img option))
                                (enumerate_docs self)"
  shows "GetValidatedBox t = None \<Longrightarrow> OnTrimAll os saved t self = self"
    and "succ saved = [] \<Longrightarrow> OnTrimAll os saved t self = self"
    and "GetValidatedBox t \<noteq> None \<Longrightarrow> succ saved \<noteq> [] \<Longrightarrow>
         file_paths (OnTrimAll os saved t self) =
           map (\<lambda>(i, p, img). add_bc_suffix os p) (succ saved) \<and>
         images (OnTrimAll os saved t self) =
           map (\<lambda>(i, p, img). the (saved i)) (succ saved)"
proof -
  obtain np ni nf where
    L: "OnTrimAll_loop os self saved (enumerate_docs self) ([], [], []) = (np, ni, nf)"
    by (cases "OnTrimAll_loop os self saved (enumerate_docs self) ([], [], [])") auto
  from OnTrimAll_loop_acc [of os self saved "enumerate_docs self" "[]" "[]" "[]"]
  have np: "np = map (\<lambda>(i, p, img). add_bc_suffix os p) (succ saved)"
    and ni: "ni = map (\<lambda>(i, p, img). the (saved i)) (succ saved)"
    unfolding L succ_def by simp_all
  show "GetValidatedBox t = None \<Longrightarrow> OnTrimAll os saved t self = self"
    by (simp add: OnTrimAll_def)
  show "succ saved = [] \<Longrightarrow> OnTrimAll os saved t self = self"
    by (cases "GetValidatedBox t") (simp_all add: OnTrimAll_def L ni)
  show "GetValidatedBox t \<noteq> None \<Longrightarrow> succ saved \<noteq> [] \<Longrightarrow>
         file_paths (OnTrimAll os saved t self) =
           map (\<lambda>(i, p, img). add_bc_suffix os p) (succ saved) \<and>
         images (OnTrimAll os saved t self) =
           map (\<lambda>(i, p, img). the (saved i)) (succ saved)"
    using np ni by (auto simp add: OnTrimAll_def L PushHistory_def Let_def)
qed

text \<open>
  C4: \<^verbatim>\<open>OnTrimAll\<close> leaves the session as it is when the crop box is invalid (a field
  that is no integer, or \<open>xe \<le> xs\<close>, or \<open>ye \<le> ys\<close>); it leaves the session as it is
  when no document can be cropped, saved and reloaded; and otherwise the new paths and
  images are those of exactly the documents that succeed, in their order, whatever
  documents fail in between.
\<close>

theorem OnTrimAll_isolation:
  "((xs = None \<or> ys = None \<or> xe = None \<or> ye = None \<or>
       the xe \<le> the xs \<or> the ye \<le> the ys) \<longrightarrow>
      GetValidatedBox (xs, ys, xe, ye) = None \<and>
      OnTrimAll os saved (xs, ys, xe, ye) self = self) \<and>
   ((\<forall>d \<in> set (enumerate_docs self). saved (fst d) = None) \<longrightarrow>
      OnTrimAll os saved (xs, ys, xe, ye) self = self) \<and>
   (GetValidatedBox (xs, ys, xe, ye) \<noteq> None \<and>
    (\<exists>d \<in> set (enumerate_docs self). saved (fst d) \<noteq> None) \<longrightarrow>
      file_paths (OnTrimAll os saved (xs, ys, xe, ye) self) =
        map (\<lambda>(i, p, img). add_bc_suffix os p)
          (filter (\<lambda>(i, p, img). saved i \<noteq> None) (enumerate_docs self)) \<and>
      images (OnTrimAll os saved (xs, ys, xe, ye) self) =
        map (\<lambda>(i, p, img). the (saved i))
          (filter (\<lambda>(i, p, img). saved i \<noteq> None) (enumerate_docs self)))"
proof -
  have s1: "(\<forall>d \<in> set (enumerate_docs self). saved (fst d) = None) \<Longrightarrow>
      filter (\<lambda>(i, p, img). saved i \<noteq> None) (enumerate_docs self) = []"
    by (auto simp add: filter_empty_conv)
  have s2: "filter (\<lambda>(i, p, img). saved i \<noteq> None) (enumerate_docs self) \<noteq> []"
    if "\<exists>d \<in> set (enumerate_docs self). saved (fst d) \<noteq> None"
  proof -
    from that obtain d where d: "d \<in> set (enumerate_docs self)" "saved (fst d) \<noteq> None"
      by blast
    obtain i p img where e: "d = (i, p, img)" by (cases d) auto
    from d e have "(i, p, img) \<in>
        set (filter (\<lambda>(i, p, img). saved i \<noteq> None) (enumerate_docs self))"
      by simp
    then show ?thesis by (metis empty_iff list.set(1))
  qed
  have A: "(xs = None \<or> ys = None \<or> xe = None \<or> ye = None \<or>
       the xe \<le> the xs \<or> the ye \<le> the ys) \<longrightarrow>
      GetValidatedBox (xs, ys, xe, ye) = None \<and>
      OnTrimAll os saved (xs, ys, xe, ye) self = self"
  proof
    assume "xs = None \<or> ys = None \<or> xe = None \<or> ye = None \<or>
       the xe \<le> the xs \<or> the ye \<le> the ys"
    then have n: "GetValidatedBox (xs, ys, xe, ye) = None"
      by (simp only: GetValidatedBox_None_iff)
    have "OnTrimAll os saved (xs, ys, xe, ye) self = self"
      by (rule OnTrimAll_cases(1) [OF n])
    with n show "GetValidatedBox (xs, ys, xe, ye) = None \<and>
      OnTrimAll os saved (xs, ys, xe, ye) self = self"
      by (rule conjI)
  qed
  have B: "(\<forall>d \<in> set (enumerate_docs self). saved (fst d) = None) \<longrightarrow>
      OnTrimAll os saved (xs, ys, xe, ye) self = self"
  proof
    assume "\<forall>d \<in> set (enumerate_docs self). saved (fst d) = None"
    then have "filter (\<lambda>(i, p, img). saved i \<noteq> None) (enumerate_docs self) = []"
      by (rule s1)
    then show "OnTrimAll os saved (xs, ys, xe, ye) self = self"
      by (rule OnTrimAll_cases(2))
  qed
  have C: "GetValidatedBox (xs, ys, xe, ye) \<noteq> None \<and>
    (\<exists>d \<in> set (enumerate_docs self). saved (fst d) \<noteq> None) \<longrightarrow>
      file_paths (OnTrimAll os saved (xs, ys, xe, ye) self) =
        map (\<lambda>(i, p, img). add_bc_suffix os p)
          (filter (\<lambda>(i, p, img). saved i \<noteq> None) (enumerate_docs self)) \<and>
      images (OnTrimAll os saved (xs, ys, xe, ye) self) =
        map (\<lambda>(i, p, img). the (saved i))
          (filter (\<lambda>(i, p, img). saved i \<noteq> None) (enumerate_docs self))"
  proof
    assume h: "GetValidatedBox (xs, ys, xe, ye) \<noteq> None \<and>
      (\<exists>d \<in> set (enumerate_docs self). saved (fst d) \<noteq> None)"
    then have v: "GetValidatedBox (xs, ys, xe, ye) \<noteq> None" by (rule conjunct1)
    from h have "\<exists>d \<in> set (enumerate_docs self). saved (fst d) \<noteq> None"
      by (rule conjunct2)
    then have f: "filter (\<lambda>(i, p, img). saved i \<noteq> None) (enumerate_docs self) \<noteq> []"
      by (rule s2)
    show "file_paths (OnTrimAll os saved (xs, ys, xe, ye) self) =
        map (\<lambda>(i, p, img). add_bc_suffix os p)
          (filter (\<lambda>(i, p, img). saved i \<noteq> None) (enumerate_docs self)) \<and>
      images (OnTrimAll os saved (xs, ys, xe, ye) self) =
        map (\<lambda>(i, p, img). the (saved i))
          (filter (\<lambda>(i, p, img). saved i \<noteq> None) (enumerate_docs self))"
      by (rule OnTrimAll_cases(3) [OF v f])
  qed
  from A B C show ?thesis by blast
qed

theorem OnTrimAll_isolation_witness:
  "GetValidatedBox (Some 0, Some 0, Some 0, Some 5) = None \<and>
   OnTrimAll posix (\<lambda>i. Some 7) (Some 0, Some 0, Some 0, Some 5) mixed_frame = mixed_frame \<and>
   OnTrimAll posix (\<lambda>i. Some 7) (Some 0, None, Some 4, Some 5) mixed_frame = mixed_frame \<and>
   OnTrimAll posix (\<lambda>i. None) (Some 0, Some 0, Some 5, Some 5) mixed_frame = mixed_frame \<and>
   file_paths (OnTrimAll posix (\<lambda>i. if i = 0 then None else Some 7)
     (Some 0, Some 0, Some 5, Some 5) mixed_frame) = [''b_bc.jpg''] \<and>
   images (OnTrimAll posix (\<lambda>i. if i = 0 then None else Some 7)
     (Some 0, Some 0, Some 5, Some 5) mixed_frame) = [7]"
proof -
  have docs: "enumerate_docs mixed_frame = [(0, ''a.png'', 0), (1, ''b.jpg'', 1)]"
    by code_simp
  have bc: "add_bc_suffix posix ''b.jpg'' = ''b_bc.jpg''"
    by code_simp
  from OnTrimAll_isolation [where xs = "Some 0" and ys = "Some 0" and xe = "Some 0"
      and ye = "Some 5" and os = posix and saved = "\<lambda>i. Some 7" and self = mixed_frame]
  have a: "GetValidatedBox (Some 0, Some 0, Some 0, Some 5) = None \<and>
    OnTrimAll posix (\<lambda>i. Some 7) (Some 0, Some 0, Some 0, Some 5) mixed_frame = mixed_frame"
    by simp
  from OnTrimAll_isolation [where xs = "Some 0" and ys = None and xe = "Some 4"
      and ye = "Some 5" and os = posix and saved = "\<lambda>i. Some 7" and self = mixed_frame]
  have b: "OnTrimAll posix (\<lambda>i. Some 7) (Some 0, None, Some 4, Some 5) mixed_frame =
    mixed_frame"
    by simp
  from OnTrimAll_isolation [where xs = "Some 0" and ys = "Some 0" and xe = "Some 5"
      and ye = "Some 5" and os = posix and saved = "\<lambda>i. None" and self = mixed_frame]
  have c: "OnTrimAll posix (\<lambda>i. None) (Some 0, Some 0, Some 5, Some 5) mixed_frame =
    mixed_frame"
    by simp
  have v: "GetValidatedBox (Some 0, Some 0, Some 5, Some 5) \<noteq> None"
    by (simp add: GetValidatedBox_def)
  have s: "\<exists>d \<in> set (enumerate_docs mixed_frame).
      (\<lambda>i. if i = 0 then None else Some (7::nat)) (fst d) \<noteq> None"
    unfolding docs by simp
  from OnTrimAll_isolation [where xs = "Some 0" and ys = "Some 0" and xe = "Some 5"
      and ye = "Some 5" and os = posix and saved = "\<lambda>i. if i = 0 then None else Some 7"
      and self = mixed_frame] v s
  have d: "file_paths (OnTrimAll posix (\<lambda>i. if i = 0 then None else Some 7)
       (Some 0, Some 0, Some 5, Some 5) mixed_frame) = [''b_bc.jpg''] \<and>
     images (OnTrimAll posix (\<lambda>i. if i = 0 then None else Some 7)
       (Some 0, Some 0, Some 5, Some 5) mixed_frame) = [7]"
    unfolding docs by (simp add: bc)
  from a b c d show ?thesis by blast
qed

text \<open>
  C10: \<^verbatim>\<open>OnPngReduce\<close> returns the session as it is, with its paths, images, flags and
  history, when no file is loaded or when some loaded path has a lower-cased extension
  other than \<^verbatim>\<open>.png\<close>.
\<close>

theorem OnPngReduce_guard:
  assumes "file_paths self = [] \<or>
           (\<exists>p \<in> set (file_paths self). lower (snd (splitext os p)) \<noteq> ''.png'')"
  shows "OnPngReduce os reduced self = self"
  using assms by (auto simp add: OnPngReduce_def Let_def filter_empty_conv)

theorem OnPngReduce_guard_witness:
  "lower (snd (splitext posix ''b.jpg'')) \<noteq> ''.png'' \<and>
   ''b.jpg'' \<in> set (file_paths mixed_frame) \<and>
   OnPngReduce posix (\<lambda>i. Some 7) mixed_frame = mixed_frame \<and>
   file_paths empty_frame = [] \<and>
   OnPngReduce posix (\<lambda>i. Some 7) empty_frame = empty_frame"
proof -
  have e: "lower (snd (splitext posix ''b.jpg'')) \<noteq> ''.png''"
    by code_simp
  have m: "''b.jpg'' \<in> set (file_paths mixed_frame)"
    by (simp add: mixed_frame_def)
  from e m have h: "\<exists>p \<in> set (file_paths mixed_frame).
      lower (snd (splitext posix p)) \<noteq> ''.png''"
    by blast
  have n: "file_paths empty_frame = []" by (simp add: empty_frame_def)
  from OnPngReduce_guard [of mixed_frame posix "\<lambda>i. Some 7"] h
  have a: "OnPngReduce posix (\<lambda>i. Some 7) mixed_frame = mixed_frame" by blast
  from OnPngReduce_guard [of empty_frame posix "\<lambda>i. Some 7"] n
  have b: "OnPngReduce posix (\<lambda>i. Some 7) empty_frame = empty_frame" by blast
  from e m a n b show ?thesis by blast
qed

section \<open>Aspect lock\<close>

lemma py_round_err: "\<bar>of_int (py_round q) - q\<bar> \<le> 1 / 2"
proof -
  define f where "f = \<lfloor>q\<rfloor>"
  have h: "of_int f \<le> q" "q < of_int f + 1"
    using floor_correct [of q] by (simp_all add: f_def)
  have "\<bar>of_int (if q - of_int f < 1 / 2 then f
                   else if 1 / 2 < q - of_int f then f + 1
                   else if even f then f else f + 1) - q\<bar> \<le> 1 / 2"
    using h by (auto simp add: abs_if)
  then show ?thesis unfolding py_round_def Let_def f_def .
qed

lemma py_round_nonneg: "0 \<le> q \<Longrightarrow> 0 \<le> py_round q"
  by (auto simp add: py_round_def Let_def)


















section \<open>Floats\<close>

lemma blen_bounds:
  assumes "0 < n"
  shows "2 ^ (blen n - 1) \<le> n \<and> n < 2 ^ blen n"
  using assms
proof (induction n rule: blen.induct)
  case (1 n)
  have b: "blen n = Suc (blen (n div 2))"
    using "1.prems" by (subst blen.simps) simp
  have d: "2 * (n div 2) \<le> n" "n \<le> 2 * (n div 2) + 1" by presburger+
  show ?case
  proof (cases "n div 2 = 0")
    case True
    have z: "blen (n div 2) = 0" unfolding True by (subst blen.simps) simp
    have "n = 1" using True d "1.prems" by linarith
    then show ?thesis unfolding b z by simp
  next
    case False
    then have m: "0 < n div 2" by simp
    have n0: "n \<noteq> 0" using "1.prems" by simp
    have ih: "2 ^ (blen (n div 2) - 1) \<le> n div 2 \<and> n div 2 < 2 ^ blen (n div 2)"
      by (rule "1.IH" [OF n0 m])
    have "blen (n div 2) \<noteq> 0"
    proof
      assume "blen (n div 2) = 0"
      with ih have "n div 2 < 1" by simp
      with m show False by simp
    qed
    then obtain c where c: "blen (n div 2) = Suc c"
      by (cases "blen (n div 2)") auto
    define Q where "Q = (2::nat) ^ c"
    from ih have q: "Q \<le> n div 2" "n div 2 < 2 * Q"
      unfolding c Q_def by simp_all
    have "2 * Q \<le> n \<and> n < 2 * (2 * Q)" using q d by linarith
    then show ?thesis unfolding b c Q_def by simp
  qed
qed

lemma blen_pos: "0 < n \<Longrightarrow> 0 < blen n"
  by (subst blen.simps) simp

text \<open>
  \<open>floor_log2\<close> is the floor of the binary logarithm.
\<close>

lemma floor_log2_bounds:
  assumes "0 < a"
  shows "2 powi (floor_log2 a) \<le> a" and "a < 2 powi (floor_log2 a + 1)"
proof -
  obtain n d where nd: "quotient_of a = (n, d)" by (cases "quotient_of a") auto
  have dpos: "0 < d" by (rule quotient_of_denom_pos [OF nd])
  have a: "a = of_int n / of_int d" by (rule quotient_of_div [OF nd])
  have npos: "0 < n" using assms dpos unfolding a by (simp add: zero_less_divide_iff)
  define bn where "bn = blen (nat n)"
  define bd where "bd = blen (nat d)"
  define k where "k = int bn - int bd"
  have fl: "floor_log2 a = (if 2 powi k \<le> a then k else k - 1)"
    unfolding floor_log2_def nd prod.case Let_def k_def bn_def bd_def by (rule refl)
  have bn1: "0 < bn" unfolding bn_def by (rule blen_pos) (use npos in simp)
  have bd1: "0 < bd" unfolding bd_def by (rule blen_pos) (use dpos in simp)
  have nn: "(of_nat (nat n) :: rat) = of_int n" using npos by simp
  have dd: "(of_nat (nat d) :: rat) = of_int d" using dpos by simp
  from blen_bounds [of "nat n"] npos
  have n1: "2 ^ (bn - 1) \<le> nat n" and n2: "nat n < 2 ^ bn"
    unfolding bn_def by simp_all
  from blen_bounds [of "nat d"] dpos
  have d1: "2 ^ (bd - 1) \<le> nat d" and d2: "nat d < 2 ^ bd"
    unfolding bd_def by simp_all
  have rn1: "(2::rat) ^ (bn - 1) \<le> of_int n"
  proof -
    have "(of_nat (2 ^ (bn - 1)) :: rat) \<le> of_nat (nat n)"
      using n1 by (simp only: of_nat_le_iff)
    then show ?thesis unfolding nn by simp
  qed
  have rn2: "of_int n < (2::rat) ^ bn"
  proof -
    have "(of_nat (nat n) :: rat) < of_nat (2 ^ bn)"
      using n2 by (simp only: of_nat_less_iff)
    then show ?thesis unfolding nn by simp
  qed
  have rd1: "(2::rat) ^ (bd - 1) \<le> of_int d"
  proof -
    have "(of_nat (2 ^ (bd - 1)) :: rat) \<le> of_nat (nat d)"
      using d1 by (simp only: of_nat_le_iff)
    then show ?thesis unfolding dd by simp
  qed
  have rd2: "of_int d \<le> (2::rat) ^ bd"
  proof -
    have "(of_nat (nat d) :: rat) < of_nat (2 ^ bd)"
      using d2 by (simp only: of_nat_less_iff)
    then show ?thesis unfolding dd by simp
  qed
  have two: "(2::rat) \<noteq> 0 \<or> P" for P by simp
  have lo: "(2::rat) powi (k - 1) \<le> a"
  proof -
    have "k - 1 = int (bn - 1) - int bd" using bn1 unfolding k_def by simp
    then have "(2::rat) powi (k - 1) = 2 powi int (bn - 1) / 2 powi int bd"
      by (simp only: power_int_diff [OF two])
    also have "\<dots> = 2 ^ (bn - 1) / 2 ^ bd" by (simp only: power_int_of_nat)
    also have "\<dots> \<le> of_int n / of_int d"
      by (rule frac_le) (use npos dpos rn1 rd2 in simp_all)
    finally show ?thesis unfolding a .
  qed
  have hi: "a < (2::rat) powi (k + 1)"
  proof -
    have "k + 1 = int bn - int (bd - 1)" using bd1 unfolding k_def by simp
    then have "(2::rat) powi (k + 1) = 2 powi int bn / 2 powi int (bd - 1)"
      by (simp only: power_int_diff [OF two])
    also have "\<dots> = 2 ^ bn / 2 ^ (bd - 1)" by (simp only: power_int_of_nat)
    finally have e: "(2::rat) powi (k + 1) = 2 ^ bn / 2 ^ (bd - 1)" .
    have "of_int n / of_int d < (2::rat) ^ bn / 2 ^ (bd - 1)"
      by (rule frac_less) (use npos rn2 rd1 in simp_all)
    then show ?thesis unfolding a e .
  qed
  show "2 powi (floor_log2 a) \<le> a"
  proof (cases "2 powi k \<le> a")
    case True
    then show ?thesis unfolding fl by simp
  next
    case False
    then show ?thesis unfolding fl using lo by simp
  qed
  show "a < 2 powi (floor_log2 a + 1)"
  proof (cases "2 powi k \<le> a")
    case True
    then show ?thesis unfolding fl using hi by simp
  next
    case False
    then show ?thesis unfolding fl by simp
  qed
qed

text \<open>
  Rounding changes a value by at most half a unit of the last place, so it does not
  overflow on moderate values.
\<close>

lemma round_double_bounded:
  assumes "2 * \<bar>q\<bar> + 1 < 2 powi 1024"
  shows "\<exists>v. round_double q = Some v \<and> \<bar>v\<bar> \<le> 2 * \<bar>q\<bar> + 1"
proof (cases "q = 0")
  case True
  then show ?thesis by (simp add: round_double_def)
next
  case False
  define a where "a = \<bar>q\<bar>"
  define L where "L = floor_log2 a"
  define e where "e = max (L - 52) (- 1074)"
  define u where "u = (2::rat) powi e"
  define m where "m = py_round (a / u)"
  define v where "v = of_int m * u"
  have apos: "0 < a" using False by (simp add: a_def)
  have upos: "0 < u" unfolding u_def by (simp add: zero_less_power_int)
  have La: "2 powi L \<le> a" unfolding L_def by (rule floor_log2_bounds(1) [OF apos])
  have one: "(1::rat) \<le> 2" by simp
  have ule: "u \<le> a + 1"
  proof (cases "L - 52 \<le> - 1074")
    case True
    then have "e = - 1074" by (simp add: e_def)
    then have "u = (2::rat) powi (- 1074)" by (simp only: u_def)
    also have "\<dots> \<le> 2 powi 0" by (rule power_int_increasing [OF _ one]) simp
    also have "\<dots> = 1" by simp
    finally show ?thesis using apos by linarith
  next
    case False
    then have "e = L - 52" by (simp add: e_def)
    then have "u = (2::rat) powi (L - 52)" by (simp only: u_def)
    also have "\<dots> \<le> 2 powi L" by (rule power_int_increasing [OF _ one]) simp
    finally show ?thesis using La by linarith
  qed
  have q0: "0 \<le> a / u" using apos upos by simp
  have m0: "0 \<le> m" unfolding m_def by (rule py_round_nonneg [OF q0])
  have "\<bar>of_int m - a / u\<bar> \<le> 1 / 2" unfolding m_def by (rule py_round_err)
  then have merr: "of_int m \<le> a / u + 1 / 2" by linarith
  have "of_int m * u \<le> (a / u + 1 / 2) * u"
    by (rule mult_right_mono [OF merr]) (use upos in simp)
  also have "\<dots> = a + u / 2" using upos by (simp add: field_simps)
  finally have vle: "v \<le> a + u / 2" unfolding v_def .
  have v0: "0 \<le> v" unfolding v_def using m0 upos by simp
  have v2: "v \<le> 2 * a + 1" using vle ule apos by linarith
  have nov: "\<not> 2 powi 1024 \<le> v" using v2 assms unfolding a_def by linarith
  have "round_double q =
        (if 2 powi 1024 \<le> v then None else Some (if 0 < q then v else - v))"
    unfolding round_double_def Let_def if_not_P [OF False] v_def m_def u_def e_def L_def a_def
    by (rule refl)
  then have rd: "round_double q = Some (if 0 < q then v else - v)"
    unfolding if_not_P [OF nov] .
  have "\<bar>if 0 < q then v else - v\<bar> = v" using v0 by simp
  then have "\<bar>if 0 < q then v else - v\<bar> \<le> 2 * \<bar>q\<bar> + 1"
    using v2 unfolding a_def by simp
  with rd show ?thesis by blast
qed

lemma pow_1024: "(2::rat) ^ 200 \<le> 2 powi 1024"
proof -
  have "(2::rat) powi int 1024 = 2 ^ 1024" by (rule power_int_of_nat)
  then have e: "(2::rat) powi 1024 = 2 ^ 1024" by simp
  have "(2::rat) ^ 200 \<le> 2 ^ 1024" by (rule power_increasing) simp_all
  then show ?thesis unfolding e .
qed

lemma round_double_small:
  assumes "\<bar>q\<bar> \<le> 2 ^ 132"
  shows "\<exists>v. round_double q = Some v \<and> \<bar>v\<bar> \<le> 2 * \<bar>q\<bar> + 1"
proof (rule round_double_bounded)
  have "2 * \<bar>q\<bar> + 1 \<le> 2 * 2 ^ 132 + 1" using assms by simp
  also have "\<dots> < (2::rat) ^ 200" by simp
  also have "\<dots> \<le> 2 powi 1024" by (rule pow_1024)
  finally show "2 * \<bar>q\<bar> + 1 < 2 powi 1024" .
qed

text \<open>
  The value of a rounding is fixed by the binade \<open>L\<close> of the argument and the nearest
  integer multiple \<open>m\<close> of the unit in the last place.
\<close>

lemma floor_log2_unique:
  assumes "0 < a" and "2 powi L \<le> a" and "a < 2 powi (L + 1)"
  shows "floor_log2 a = L"
proof -
  define F where "F = floor_log2 a"
  have f1: "2 powi F \<le> a" and f2: "a < 2 powi (F + 1)"
    unfolding F_def by (rule floor_log2_bounds [OF assms(1)])+
  have one: "(1::rat) \<le> 2" by simp
  have "\<not> F < L"
  proof
    assume "F < L"
    then have "F + 1 \<le> L" by simp
    then have "(2::rat) powi (F + 1) \<le> 2 powi L" by (rule power_int_increasing [OF _ one])
    with f2 assms(2) show False by linarith
  qed
  moreover have "\<not> L < F"
  proof
    assume "L < F"
    then have "L + 1 \<le> F" by simp
    then have "(2::rat) powi (L + 1) \<le> 2 powi F" by (rule power_int_increasing [OF _ one])
    with f1 assms(3) show False by linarith
  qed
  ultimately show ?thesis unfolding F_def by linarith
qed

lemma py_round_unique:
  assumes "of_int m - 1 / 2 < q" and "q < of_int m + 1 / 2"
  shows "py_round q = m"
proof -
  have "\<bar>of_int (py_round q) - q\<bar> \<le> 1 / 2" by (rule py_round_err)
  with assms have "of_int (py_round q) - (of_int m :: rat) < 1"
    and "(of_int m :: rat) - of_int (py_round q) < 1" by linarith+
  then have "of_int (py_round q - m) < (1::rat)" and "of_int (m - py_round q) < (1::rat)"
    by simp_all
  then have "py_round q - m < 1" and "m - py_round q < 1"
    by (simp_all only: of_int_less_1_iff)
  then show ?thesis by linarith
qed

lemma round_double_eval:
  assumes "0 < q" and "2 powi L \<le> q" and "q < 2 powi (L + 1)" and "- 1022 \<le> L"
    and "(of_int m - 1 / 2) * 2 powi (L - 52) < q"
    and "q < (of_int m + 1 / 2) * 2 powi (L - 52)"
    and "(of_int m :: rat) * 2 powi (L - 52) < 2 ^ 200"
  shows "round_double q = Some (of_int m * 2 powi (L - 52))"
proof -
  define u where "u = (2::rat) powi (L - 52)"
  have upos: "0 < u" unfolding u_def by (simp add: zero_less_power_int)
  have a: "\<bar>q\<bar> = q" using assms(1) by simp
  have fl: "floor_log2 q = L" by (rule floor_log2_unique [OF assms(1,2,3)])
  have e: "max (L - 52) (- 1074) = L - 52" using assms(4) by simp
  have r1: "of_int m - 1 / 2 < q / u"
    using assms(5) upos unfolding u_def [symmetric] by (simp add: pos_less_divide_eq)
  have r2: "q / u < of_int m + 1 / 2"
    using assms(6) upos unfolding u_def [symmetric] by (simp add: pos_divide_less_eq)
  have m: "py_round (q / u) = m" by (rule py_round_unique [OF r1 r2])
  have "of_int m * u < 2 ^ 200" using assms(7) unfolding u_def .
  also have "\<dots> \<le> 2 powi 1024" by (rule pow_1024)
  finally have nov: "\<not> 2 powi 1024 \<le> of_int m * u" by simp
  have q0: "q \<noteq> 0" using assms(1) by simp
  have "round_double q =
        (if 2 powi 1024 \<le> of_int m * u then None else Some (if 0 < q then of_int m * u else - (of_int m * u)))"
    unfolding round_double_def Let_def if_not_P [OF q0] a fl e u_def [symmetric] m
    by (rule refl)
  then have "round_double q = Some (of_int m * u)"
    unfolding if_not_P [OF nov] if_P [OF assms(1)] .
  then show ?thesis unfolding u_def .
qed

lemma pow_facts:
  "(2::rat) ^ 64 \<le> 2 ^ 132" "2 * (2::rat) ^ 64 + 1 \<le> 2 ^ 66"
  by simp_all

lemma py_truediv_ok:
  assumes "0 < a" and "a < 2 ^ 64" and "0 < b"
  shows "\<exists>s. py_truediv a b = Inr s \<and> \<bar>s\<bar> \<le> 2 ^ 66"
proof -
  have b1: "(1::rat) \<le> of_int b" using assms(3) by simp
  have a0: "(0::rat) \<le> of_int a" using assms(1) by simp
  have "(of_int a :: rat) / of_int b \<le> of_int a / 1"
    by (rule divide_left_mono [OF b1 a0]) (use assms(3) in simp)
  moreover have "(of_int a :: rat) < 2 ^ 64"
  proof -
    have "(of_int a :: rat) < of_int (2 ^ 64)" using assms(2) by (simp only: of_int_less_iff)
    then show ?thesis by simp
  qed
  moreover have "(0::rat) \<le> of_int a / of_int b" using assms by simp
  ultimately have q: "\<bar>(of_int a :: rat) / of_int b\<bar> \<le> 2 ^ 64" by linarith
  then have "\<bar>(of_int a :: rat) / of_int b\<bar> \<le> 2 ^ 132"
    using pow_facts(1) by (rule order_trans)
  from round_double_small [OF this] obtain v where
    v: "round_double (of_int a / of_int b) = Some v"
    and vb: "\<bar>v\<bar> \<le> 2 * \<bar>(of_int a :: rat) / of_int b\<bar> + 1"
    by blast
  have "\<bar>v\<bar> \<le> 2 ^ 66" using vb q pow_facts(2) by linarith
  moreover have "py_truediv a b = Inr v"
    using assms(3) by (simp add: py_truediv_def v)
  ultimately show ?thesis by blast
qed

lemma py_mul_int_float_ok:
  assumes "\<bar>i\<bar> < 2 ^ 64" and "\<bar>s\<bar> \<le> 2 ^ 66"
  shows "\<exists>p. py_mul_int_float i s = Some p"
proof -
  have i: "\<bar>of_int i :: rat\<bar> \<le> 2 ^ 64"
  proof -
    have "(of_int \<bar>i\<bar> :: rat) < of_int (2 ^ 64)" using assms(1) by (simp only: of_int_less_iff)
    then show ?thesis by simp
  qed
  then have "\<bar>of_int i :: rat\<bar> \<le> 2 ^ 132"
    using pow_facts(1) by (rule order_trans)
  from round_double_small [OF this] obtain f where
    f: "round_double (of_int i) = Some f" and fb: "\<bar>f\<bar> \<le> 2 * \<bar>of_int i :: rat\<bar> + 1"
    by blast
  have f66: "\<bar>f\<bar> \<le> 2 ^ 66" using fb i pow_facts(2) by linarith
  have "\<bar>f * s\<bar> = \<bar>f\<bar> * \<bar>s\<bar>" by (rule abs_mult)
  also have "\<dots> \<le> 2 ^ 66 * 2 ^ 66"
    by (rule mult_mono [OF f66 assms(2)]) simp_all
  also have "\<dots> = (2::rat) ^ 132" by simp
  finally have "\<bar>f * s\<bar> \<le> 2 ^ 132" .
  from round_double_small [OF this] obtain p where "round_double (f * s) = Some p"
    by blast
  then have "py_mul_int_float i s = Some p" by (simp add: py_mul_int_float_def f)
  then show ?thesis by blast
qed

section \<open>Display rectangle to source crop box\<close>

lemma clamp_start:
  fixes a iw :: int
  assumes "0 < iw"
  shows "0 \<le> max 0 (min (iw - 1) a)" and "max 0 (min (iw - 1) a) \<le> iw - 1"
  using assms by (simp_all add: max_def min_def)

lemma clamp_end:
  fixes b iw x1 :: int
  assumes "x1 \<le> iw - 1"
  shows "x1 + 1 \<le> max (x1 + 1) (min iw b)" and "max (x1 + 1) (min iw b) \<le> iw"
  using assms by (simp_all add: max_def min_def)

text \<open>
  C2: for every display rectangle \<open>(x, y, w, h)\<close>, also one of zero area, and every loaded
  image of positive size shown at positive display dimensions, \<^verbatim>\<open>GetCropBox\<close> raises
  nothing and returns a box \<open>(x1, y1, x2, y2)\<close>: the scales are the float quotients
  \<open>sx\<close> and \<open>sy\<close>, the start corner is the floor of the float products \<open>x * sx\<close> and
  \<open>y * sy\<close> clamped into \<open>[0, iw - 1] \<times> [0, ih - 1]\<close>, and the end corner is the ceiling of
  the float products \<open>(x + w) * sx\<close> and \<open>(y + h) * sy\<close> clamped into
  \<open>[x1 + 1, iw] \<times> [y1 + 1, ih]\<close>; so \<open>x1 < x2\<close>, \<open>y1 < y2\<close> and the box lies within the
  image. The coordinates of a \<^verbatim>\<open>wx.Rect\<close> and the size of an image are machine integers:
  they are below \<open>2 ^ 64\<close> in magnitude, which keeps the floats finite.
\<close>

theorem GetCropBox_clamped:
  assumes "crop_rect self = Some (x, y, w, h)" and "current_image self = Some (iw, ih)"
    and "0 < iw" and "0 < ih" and "0 < display_w self" and "0 < display_h self"
    and "iw < 2 ^ 64" and "ih < 2 ^ 64"
    and "\<bar>x\<bar> < 2 ^ 64" and "\<bar>y\<bar> < 2 ^ 64" and "\<bar>x + w\<bar> < 2 ^ 64" and "\<bar>y + h\<bar> < 2 ^ 64"
  shows "\<exists>sx sy fx1 fy1 fx2 fy2 x1 y1 x2 y2.
     py_truediv iw (display_w self) = Inr sx \<and>
     py_truediv ih (display_h self) = Inr sy \<and>
     py_mul_int_float x sx = Some fx1 \<and> py_mul_int_float y sy = Some fy1 \<and>
     py_mul_int_float (x + w) sx = Some fx2 \<and> py_mul_int_float (y + h) sy = Some fy2 \<and>
     GetCropBox self = Inr (Some (x1, y1, x2, y2)) \<and>
     x1 = max 0 (min (iw - 1) \<lfloor>fx1\<rfloor>) \<and> y1 = max 0 (min (ih - 1) \<lfloor>fy1\<rfloor>) \<and>
     x2 = max (x1 + 1) (min iw \<lceil>fx2\<rceil>) \<and> y2 = max (y1 + 1) (min ih \<lceil>fy2\<rceil>) \<and>
     0 \<le> x1 \<and> x1 \<le> iw - 1 \<and> x1 + 1 \<le> x2 \<and> x2 \<le> iw \<and>
     0 \<le> y1 \<and> y1 \<le> ih - 1 \<and> y1 + 1 \<le> y2 \<and> y2 \<le> ih \<and> x1 < x2 \<and> y1 < y2"
proof -
  from py_truediv_ok [OF assms(3) assms(7) assms(5)] obtain sx where
    sx: "py_truediv iw (display_w self) = Inr sx" and bsx: "\<bar>sx\<bar> \<le> 2 ^ 66" by blast
  from py_truediv_ok [OF assms(4) assms(8) assms(6)] obtain sy where
    sy: "py_truediv ih (display_h self) = Inr sy" and bsy: "\<bar>sy\<bar> \<le> 2 ^ 66" by blast
  from py_mul_int_float_ok [OF assms(9) bsx] obtain fx1 where
    fx1: "py_mul_int_float x sx = Some fx1" by blast
  from py_mul_int_float_ok [OF assms(10) bsy] obtain fy1 where
    fy1: "py_mul_int_float y sy = Some fy1" by blast
  from py_mul_int_float_ok [OF assms(11) bsx] obtain fx2 where
    fx2: "py_mul_int_float (x + w) sx = Some fx2" by blast
  from py_mul_int_float_ok [OF assms(12) bsy] obtain fy2 where
    fy2: "py_mul_int_float (y + h) sy = Some fy2" by blast
  define x1 where "x1 = max 0 (min (iw - 1) \<lfloor>fx1\<rfloor>)"
  define y1 where "y1 = max 0 (min (ih - 1) \<lfloor>fy1\<rfloor>)"
  define x2 where "x2 = max (x1 + 1) (min iw \<lceil>fx2\<rceil>)"
  define y2 where "y2 = max (y1 + 1) (min ih \<lceil>fy2\<rceil>)"
  have g: "GetCropBox self = Inr (Some (x1, y1, x2, y2))"
    unfolding GetCropBox_def assms(1,2) option.case prod.case sx sy sum.case fx1 fy1 fx2 fy2
      Let_def x1_def y1_def x2_def y2_def ..
  have bx1: "0 \<le> x1" "x1 \<le> iw - 1" unfolding x1_def by (rule clamp_start [OF assms(3)])+
  have by1: "0 \<le> y1" "y1 \<le> ih - 1" unfolding y1_def by (rule clamp_start [OF assms(4)])+
  have bx2: "x1 + 1 \<le> x2" "x2 \<le> iw" unfolding x2_def by (rule clamp_end [OF bx1(2)])+
  have by2: "y1 + 1 \<le> y2" "y2 \<le> ih" unfolding y2_def by (rule clamp_end [OF by1(2)])+
  have lt: "x1 < x2" "y1 < y2" using bx2 by2 by simp_all
  show ?thesis
    using sx sy fx1 fy1 fx2 fy2 g bx1 by1 bx2 by2 lt x1_def y1_def x2_def y2_def by blast
qed

theorem GetCropBox_clamped_witness:
  "crop_rect float_preview = Some (427, 10, 4, 20) \<and>
   current_image float_preview = Some (1920, 1080) \<and>
   0 < display_w float_preview \<and> 0 < display_h float_preview \<and>
   py_truediv 1920 (display_w float_preview) = Inr (2531297214447117 / 1125899906842624) \<and>
   py_mul_int_float 427 (2531297214447117 / 1125899906842624) =
     Some (8444249301319679 / 8796093022208) \<and>
   \<lfloor>8444249301319679 / 8796093022208 :: rat\<rfloor> = 959 \<and>
   \<lfloor>of_int 427 * (of_int 1920 / of_int 854) :: rat\<rfloor> = 960 \<and>
   GetCropBox float_preview = Inr (Some (959, 22, 969, 68)) \<and>
   GetCropBox zero_area_preview = Inr (Some (20, 40, 21, 41))"
proof -
  have a: "crop_rect float_preview = Some (427, 10, 4, 20)"
    by (simp add: float_preview_def)
  have b: "current_image float_preview = Some (1920, 1080)"
    by (simp add: float_preview_def)
  have c: "0 < display_w float_preview" "0 < display_h float_preview"
    by (simp_all add: float_preview_def)
  have i: "(0::int) < 1920" "(0::int) < 1080" "(1920::int) < 2 ^ 64" "(1080::int) < 2 ^ 64"
    by simp_all
  have m: "\<bar>427::int\<bar> < 2 ^ 64" "\<bar>10::int\<bar> < 2 ^ 64" "\<bar>427 + 4 :: int\<bar> < 2 ^ 64"
    "\<bar>10 + 20 :: int\<bar> < 2 ^ 64"
    by simp_all
  have rsx: "round_double (960 / 427) = Some (2531297214447117 / 1125899906842624)"
    using round_double_eval [of "960 / 427" 1 5062594428894234] by simp
  have rsy: "round_double (9 / 4) = Some (9 / 4)"
    using round_double_eval [of "9 / 4" 1 5066549580791808] by simp
  have r2: "round_double 2 = Some 2"
    using round_double_eval [of 2 1 4503599627370496] by simp
  have r10: "round_double 10 = Some 10"
    using round_double_eval [of 10 3 5629499534213120] by simp
  have r20: "round_double 20 = Some 20"
    using round_double_eval [of 20 4 5629499534213120] by simp
  have r30: "round_double 30 = Some 30"
    using round_double_eval [of 30 4 8444249301319680] by simp
  have r40: "round_double 40 = Some 40"
    using round_double_eval [of 40 5 5629499534213120] by simp
  have r427: "round_double 427 = Some 427"
    using round_double_eval [of 427 8 7511863440965632] by simp
  have r431: "round_double 431 = Some 431"
    using round_double_eval [of 431 8 7582232185143296] by simp
  have rx1: "round_double (1080863910568918959 / 1125899906842624) =
      Some (8444249301319679 / 8796093022208)"
    using round_double_eval [of "1080863910568918959 / 1125899906842624" 9 8444249301319679]
    by simp
  have rx2: "round_double (1090989099426707427 / 1125899906842624) =
      Some (532709521204447 / 549755813888)"
    using round_double_eval [of "1090989099426707427 / 1125899906842624" 9 8523352339271152]
    by simp
  have ry1: "round_double (45 / 2) = Some (45 / 2)"
    using round_double_eval [of "45 / 2" 4 6333186975989760] by simp
  have ry2: "round_double (135 / 2) = Some (135 / 2)"
    using round_double_eval [of "135 / 2" 6 4749890231992320] by simp
  have s: "py_truediv 1920 (display_w float_preview) =
      Inr (2531297214447117 / 1125899906842624)"
    by (simp add: py_truediv_def float_preview_def rsx)
  have p: "py_mul_int_float 427 (2531297214447117 / 1125899906842624) =
     Some (8444249301319679 / 8796093022208)"
    by (simp add: py_mul_int_float_def r427 rx1)
  have f1: "\<lfloor>8444249301319679 / 8796093022208 :: rat\<rfloor> = 959"
    by (rule floor_unique) simp_all
  have f2: "\<lfloor>of_int 427 * (of_int 1920 / of_int 854) :: rat\<rfloor> = 960"
    by simp
  have f3: "\<lfloor>45 / 2 :: rat\<rfloor> = 22"
    by (rule floor_unique) simp_all
  have f4: "\<lceil>532709521204447 / 549755813888 :: rat\<rceil> = 969"
    by (rule ceiling_unique) simp_all
  have f5: "\<lceil>135 / 2 :: rat\<rceil> = 68"
    by (rule ceiling_unique) simp_all
  have e: "GetCropBox float_preview = Inr (Some (959, 22, 969, 68))"
    by (simp add: GetCropBox_def float_preview_def py_truediv_def py_mul_int_float_def
        rsx rsy r10 r30 r427 r431 rx1 rx2 ry1 ry2 f1 f3 f4 f5 Let_def)
  have z: "GetCropBox zero_area_preview = Inr (Some (20, 40, 21, 41))"
    by (simp add: GetCropBox_def zero_area_preview_def py_truediv_def py_mul_int_float_def
        r2 r10 r20 r40)
  from GetCropBox_clamped [OF a b i(1,2) c i(3,4) m]
  obtain x1 y1 x2 y2 where "GetCropBox float_preview = Inr (Some (x1, y1, x2, y2))"
    and "x1 < x2" and "y1 < y2"
    by blast
  with a b c s p f1 f2 e z show ?thesis by blast
qed

end
